theory Spec2Isabelle
  imports Complex_Main "HOL-Library.Sublist" "HOL-Library.Log_Nat"
begin

section \<open>Python primitives used by the subtitle generator\<close>

text \<open>
  The model follows \<^verbatim>\<open>src/srt_generator_mfa.py\<close>; \<^verbatim>\<open>src/srt_generator_ui.py\<close> holds the
  same functions, and its grouping function, which applies \<^verbatim>\<open>strip\<close> in another place, is
  modelled as \<open>group_words_into_sentences_ui\<close> and proved equal.

  Exceptions are values of the type \<open>py_error\<close>; a function that may raise returns
  \<open>py_error + 'a\<close>.
\<close>

datatype py_error = FileNotFoundError | ValueError | KeyError | IndexError

subsection \<open>Numbers\<close>

text \<open>
  A Python \<^verbatim>\<open>float\<close> is an IEEE 754 double.  A finite double is modelled by the
  \<^typ>\<open>real\<close> it denotes, and an arithmetic operation on doubles by the exact operation
  followed by \<open>round_to_double\<close>, the rounding to the nearest double with ties to the
  even significand.  With \<open>y = \<bar>x\<bar> * 2 ^ 1074\<close>, the doubles are the numbers whose \<open>y\<close> is
  an integer of at most 53 bits times a power of two; \<open>s\<close> below is the number of low
  bits of \<open>y\<close> that do not fit (none in the subnormal range).  Infinities and NaN are not
  modelled: the inputs are finite and no operation of the program overflows on them.
\<close>

definition py_int :: "real \<Rightarrow> int" where
  \<comment> \<open>\<^verbatim>\<open>int(x)\<close> truncates towards zero.\<close>
  "py_int x = (if 0 \<le> x then \<lfloor>x\<rfloor> else \<lceil>x\<rceil>)"

definition py_round :: "real \<Rightarrow> int" where
  \<comment> \<open>\<^verbatim>\<open>round(x)\<close> of Python 3 with one argument: to the nearest integer, a tie goes to
      the even neighbour.\<close>
  "py_round x = (let f = \<lfloor>x\<rfloor>; d = x - of_int f in
     if d < 1 / 2 then f else if 1 / 2 < d then f + 1 else if even f then f else f + 1)"

definition subnormal_shift :: nat where
  \<comment> \<open>The smallest positive double is \<open>2 ^ -1074\<close>.\<close>
  "subnormal_shift = 1074"

definition round_to_double :: "real \<Rightarrow> real" where
  "round_to_double x =
     (let y = \<bar>x\<bar> * 2 ^ subnormal_shift;
          s = nat (bitlen \<lfloor>y\<rfloor> - 53)
      in sgn x * (of_int (py_round (y / 2 ^ s)) * 2 ^ s / 2 ^ subnormal_shift))"

definition fmod :: "real \<Rightarrow> real \<Rightarrow> real" where
  \<comment> \<open>C's \<^verbatim>\<open>fmod\<close>: exact, the result has the sign of \<open>x\<close>.\<close>
  "fmod x y = x - y * of_int (py_int (x / y))"

definition py_mod :: "real \<Rightarrow> real \<Rightarrow> real" where
  \<comment> \<open>\<^verbatim>\<open>x % y\<close> on floats (CPython's \<^verbatim>\<open>float_rem\<close>): \<^verbatim>\<open>fmod\<close>, then the divisor is added
      when the signs differ.\<close>
  "py_mod x y =
     (let m = fmod x y in
      if m \<noteq> 0 \<and> (y < 0) \<noteq> (m < 0) then round_to_double (m + y) else m)"

definition py_floordiv :: "real \<Rightarrow> real \<Rightarrow> real" where
  \<comment> \<open>\<^verbatim>\<open>x // y\<close> on floats (CPython's \<^verbatim>\<open>_float_div_mod\<close>): \<^verbatim>\<open>(x - mod) / y\<close> in double
      arithmetic, snapped to the nearest integral value.\<close>
  "py_floordiv x y =
     (let m = fmod x y;
          d0 = round_to_double (round_to_double (x - m) / y);
          d = (if m \<noteq> 0 \<and> (y < 0) \<noteq> (m < 0) then round_to_double (d0 - 1) else d0)
      in if d \<noteq> 0 then
           (let f = of_int \<lfloor>d\<rfloor> in if 1 / 2 < d - f then round_to_double (f + 1) else f)
         else 0)"

fun digits :: "nat \<Rightarrow> string" where
  "digits n = (if n < 10 then [char_of (48 + n)]
               else digits (n div 10) @ [char_of (48 + n mod 10)])"

definition zfill :: "nat \<Rightarrow> string \<Rightarrow> string" where
  "zfill w s = replicate (w - length s) CHR ''0'' @ s"

definition format_int :: "nat \<Rightarrow> int \<Rightarrow> string" where
  \<comment> \<open>The format specification \<^verbatim>\<open>{n:0w}\<close>: sign-aware zero padding to width \<open>w\<close>; a
      longer number is printed in full.\<close>
  "format_int w n = (if n < 0 then CHR ''-'' # zfill (w - 1) (digits (nat (- n)))
                     else zfill w (digits (nat n)))"

subsection \<open>Strings\<close>

text \<open>
  A Python \<^verbatim>\<open>str\<close> is a sequence of code points.  The model covers the code points
  below 256: a \<^typ>\<open>char\<close> is the code point of that number, and the character classes
  are those of Python's Unicode tables on that range.
\<close>

definition isspace :: "char \<Rightarrow> bool" where
  \<comment> \<open>The characters removed by \<^verbatim>\<open>str.strip()\<close> and matched by \<^verbatim>\<open>\s\<close>.\<close>
  "isspace c = (let n = (of_char c :: nat) in
     (9 \<le> n \<and> n \<le> 13) \<or> (28 \<le> n \<and> n \<le> 32) \<or> n = 133 \<or> n = 160)"

definition strip :: "string \<Rightarrow> string" where
  \<comment> \<open>\<^verbatim>\<open>s.strip()\<close>\<close>
  "strip s = rev (dropWhile isspace (rev (dropWhile isspace s)))"

definition isalnum :: "char \<Rightarrow> bool" where
  \<comment> \<open>\<^verbatim>\<open>str.isalnum\<close> on one character: letters, digits and other numeric characters.\<close>
  "isalnum c = (let n = (of_char c :: nat) in
     (48 \<le> n \<and> n \<le> 57) \<or> (65 \<le> n \<and> n \<le> 90) \<or> (97 \<le> n \<and> n \<le> 122) \<or>
     n = 170 \<or> n = 178 \<or> n = 179 \<or> n = 181 \<or> n = 185 \<or> n = 186 \<or>
     (188 \<le> n \<and> n \<le> 190) \<or> (192 \<le> n \<and> n \<le> 214) \<or> (216 \<le> n \<and> n \<le> 246) \<or>
     (248 \<le> n \<and> n \<le> 255))"

definition isword :: "char \<Rightarrow> bool" where
  \<comment> \<open>The class \<^verbatim>\<open>\w\<close> of \<^verbatim>\<open>re\<close> on \<^verbatim>\<open>str\<close> patterns: alphanumeric or the underscore.\<close>
  "isword c = (isalnum c \<or> c = CHR ''_'')"

definition lower_char :: "char \<Rightarrow> char" where
  "lower_char c = (let n = (of_char c :: nat) in
     if (65 \<le> n \<and> n \<le> 90) \<or> (192 \<le> n \<and> n \<le> 214) \<or> (216 \<le> n \<and> n \<le> 222)
     then char_of (n + 32) else c)"

definition lower :: "string \<Rightarrow> string" where
  \<comment> \<open>\<^verbatim>\<open>s.lower()\<close>\<close>
  "lower s = map lower_char s"

definition clean :: "string \<Rightarrow> string" where
  \<comment> \<open>\<^verbatim>\<open>re.sub(r'\W+', '', s).lower()\<close>: every run of non-word characters is
      deleted, the rest is lowercased.\<close>
  "clean s = lower (filter isword s)"

function findall_nonspace :: "string \<Rightarrow> string list" where
  \<comment> \<open>\<^verbatim>\<open>re.findall(r"\S+", s)\<close>: the maximal runs of non-whitespace characters, in order.\<close>
  "findall_nonspace s =
     (let s' = dropWhile isspace s in
      if s' = [] then []
      else takeWhile (\<lambda>c. \<not> isspace c) s' # findall_nonspace (dropWhile (\<lambda>c. \<not> isspace c) s'))"
  by pat_completeness auto
termination
proof (relation "measure length")
  show "wf (measure length)" by simp
next
  fix s s' :: string
  assume a: "s' = dropWhile isspace s" "s' \<noteq> []"
  then have "\<not> isspace (hd s')" by (simp add: hd_dropWhile)
  with a(2) have "length (dropWhile (\<lambda>c. \<not> isspace c) s') < length s'"
    by (cases s') (auto simp: length_dropWhile_le le_imp_less_Suc)
  moreover have "length s' \<le> length s" by (simp add: a(1) length_dropWhile_le)
  ultimately show "(dropWhile (\<lambda>c. \<not> isspace c) s', s) \<in> measure length"
    by simp
qed

declare findall_nonspace.simps [simp del]

definition startswith :: "string \<Rightarrow> string \<Rightarrow> bool" where
  \<comment> \<open>\<^verbatim>\<open>s.startswith(p)\<close>\<close>
  "startswith s p = prefix p s"

fun split_on :: "char \<Rightarrow> string \<Rightarrow> string list" where
  \<comment> \<open>\<^verbatim>\<open>s.split(c)\<close> for a separator of one character.\<close>
  "split_on c [] = [[]]"
| "split_on c (x # xs) =
     (if x = c then [] # split_on c xs
      else case split_on c xs of [] \<Rightarrow> [[x]] | y # ys \<Rightarrow> (x # y) # ys)"

definition split_once :: "char \<Rightarrow> string \<Rightarrow> string list" where
  \<comment> \<open>\<^verbatim>\<open>s.split(c, 1)\<close>: split at the first separator only.\<close>
  "split_once c s =
     (if c \<in> set s then [takeWhile (\<lambda>x. x \<noteq> c) s, tl (dropWhile (\<lambda>x. x \<noteq> c) s)] else [s])"

definition item :: "'a list \<Rightarrow> nat \<Rightarrow> py_error + 'a" where
  \<comment> \<open>\<^verbatim>\<open>xs[i]\<close> for a non-negative index.\<close>
  "item xs i = (if i < length xs then Inr (xs ! i) else Inl IndexError)"

definition strip_chars :: "string \<Rightarrow> string \<Rightarrow> string" where
  \<comment> \<open>\<^verbatim>\<open>s.strip(chars)\<close>\<close>
  "strip_chars chars s =
     rev (dropWhile (\<lambda>c. c \<in> set chars) (rev (dropWhile (\<lambda>c. c \<in> set chars) s)))"

section \<open>The timestamp formatter\<close>

record timestamp =
  hours :: int
  minutes :: int
  secs :: int
  milliseconds :: int

definition timestamp_fields :: "real \<Rightarrow> timestamp" where
  \<comment> \<open>The four assignments of \<^verbatim>\<open>seconds_to_timestamp\<close>.  The subtraction and the
      multiplication are operations on doubles.\<close>
  "timestamp_fields seconds =
     \<lparr> hours = py_int (py_floordiv seconds 3600),
       minutes = py_int (py_floordiv (py_mod seconds 3600) 60),
       secs = py_int (py_mod seconds 60),
       milliseconds =
         py_round (round_to_double (round_to_double (seconds - of_int (py_int seconds)) * 1000)) \<rparr>"

definition seconds_to_timestamp :: "real \<Rightarrow> string" where
  "seconds_to_timestamp seconds =
     (let t = timestamp_fields seconds in
      format_int 2 (hours t) @ '':'' @ format_int 2 (minutes t) @ '':'' @
      format_int 2 (secs t) @ '','' @ format_int 3 (milliseconds t))"


section \<open>Word intervals and the cue grouper\<close>

text \<open>
  A word interval is a dictionary with the keys \<^verbatim>\<open>xmin\<close>, \<^verbatim>\<open>xmax\<close> and \<^verbatim>\<open>text\<close>, any of
  which may be absent (\<open>None\<close>).  The grouper only carries the times around, so their
  type is a parameter.
\<close>

record 't interval =
  xmin :: "'t option"
  xmax :: "'t option"
  "text" :: "string option"

definition get_text :: "('t, 'z) interval_scheme \<Rightarrow> string" where
  \<comment> \<open>\<^verbatim>\<open>interval.get("text", "")\<close>\<close>
  "get_text w = (case text w of None \<Rightarrow> [] | Some s \<Rightarrow> s)"

record 't group_state =
  subtitles :: "('t \<times> 't \<times> string) list"
  current_sentence :: string
  sentence_start :: "'t option"

definition group_init :: "'t group_state" where
  "group_init = \<lparr> subtitles = [], current_sentence = [], sentence_start = None \<rparr>"

definition group_step :: "int \<Rightarrow> 't group_state \<Rightarrow> 't interval \<Rightarrow> py_error + 't group_state" where
  "group_step max_chars st word =
     (let word_text = strip (get_text word) in
      if word_text = [] then Inr st
      else
        case (case sentence_start st of
                None \<Rightarrow> (case xmin word of None \<Rightarrow> Inl KeyError | Some a \<Rightarrow> Inr a)
              | Some a \<Rightarrow> Inr a) of
          Inl e \<Rightarrow> Inl e
        | Inr start \<Rightarrow>
            let new_sentence =
              (if current_sentence st \<noteq> [] then current_sentence st @ '' '' @ word_text
               else word_text)
            in
              if max_chars < int (length new_sentence) \<or> last word_text \<in> set ''.!?'' then
                (case xmax word of
                   None \<Rightarrow> Inl KeyError
                 | Some sentence_end \<Rightarrow>
                     Inr \<lparr> subtitles = subtitles st @ [(start, sentence_end, strip new_sentence)],
                           current_sentence = [], sentence_start = None \<rparr>)
              else
                Inr \<lparr> subtitles = subtitles st, current_sentence = new_sentence,
                      sentence_start = Some start \<rparr>)"

fun group_loop :: "int \<Rightarrow> 't group_state \<Rightarrow> 't interval list \<Rightarrow> py_error + 't group_state" where
  "group_loop max_chars st [] = Inr st"
| "group_loop max_chars st (word # rest) =
     (case group_step max_chars st word of
        Inl e \<Rightarrow> Inl e
      | Inr st' \<Rightarrow> group_loop max_chars st' rest)"

definition group_words_into_sentences ::
  "'t interval list \<Rightarrow> int \<Rightarrow> py_error + ('t \<times> 't \<times> string) list" where
  "group_words_into_sentences word_intervals max_chars =
     (case group_loop max_chars group_init word_intervals of
        Inl e \<Rightarrow> Inl e
      | Inr st \<Rightarrow>
          (case sentence_start st of
             Some start \<Rightarrow>
               if current_sentence st \<noteq> [] then
                 (if word_intervals = [] then Inl IndexError
                  else case xmax (last word_intervals) of
                         None \<Rightarrow> Inl KeyError
                       | Some e \<Rightarrow> Inr (subtitles st @ [(start, e, strip (current_sentence st))]))
               else Inr (subtitles st)
           | None \<Rightarrow> Inr (subtitles st)))"

text \<open>
  The grouping function of \<^verbatim>\<open>src/srt_generator_ui.py\<close>: the candidate line is stripped when
  it is formed, and the cue text is not stripped again.
\<close>

definition group_step_ui :: "int \<Rightarrow> 't group_state \<Rightarrow> 't interval \<Rightarrow> py_error + 't group_state" where
  "group_step_ui max_chars st word =
     (let word_text = strip (get_text word) in
      if word_text = [] then Inr st
      else
        case (case sentence_start st of
                None \<Rightarrow> (case xmin word of None \<Rightarrow> Inl KeyError | Some a \<Rightarrow> Inr a)
              | Some a \<Rightarrow> Inr a) of
          Inl e \<Rightarrow> Inl e
        | Inr start \<Rightarrow>
            let new_sentence =
              (if current_sentence st \<noteq> [] then strip (current_sentence st @ '' '' @ word_text)
               else word_text)
            in
              if max_chars < int (length new_sentence) \<or> last word_text \<in> set ''.!?'' then
                (case xmax word of
                   None \<Rightarrow> Inl KeyError
                 | Some sentence_end \<Rightarrow>
                     Inr \<lparr> subtitles = subtitles st @ [(start, sentence_end, new_sentence)],
                           current_sentence = [], sentence_start = None \<rparr>)
              else
                Inr \<lparr> subtitles = subtitles st, current_sentence = new_sentence,
                      sentence_start = Some start \<rparr>)"

fun group_loop_ui :: "int \<Rightarrow> 't group_state \<Rightarrow> 't interval list \<Rightarrow> py_error + 't group_state" where
  "group_loop_ui max_chars st [] = Inr st"
| "group_loop_ui max_chars st (word # rest) =
     (case group_step_ui max_chars st word of
        Inl e \<Rightarrow> Inl e
      | Inr st' \<Rightarrow> group_loop_ui max_chars st' rest)"

definition group_words_into_sentences_ui ::
  "'t interval list \<Rightarrow> int \<Rightarrow> py_error + ('t \<times> 't \<times> string) list" where
  "group_words_into_sentences_ui word_intervals max_chars =
     (case group_loop_ui max_chars group_init word_intervals of
        Inl e \<Rightarrow> Inl e
      | Inr st \<Rightarrow>
          (case sentence_start st of
             Some start \<Rightarrow>
               if current_sentence st \<noteq> [] then
                 (if word_intervals = [] then Inl IndexError
                  else case xmax (last word_intervals) of
                         None \<Rightarrow> Inl KeyError
                       | Some e \<Rightarrow> Inr (subtitles st @ [(start, e, current_sentence st)]))
               else Inr (subtitles st)
           | None \<Rightarrow> Inr (subtitles st)))"

definition trimmed :: "string \<Rightarrow> bool" where
  "trimmed s = (s = [] \<or> (\<not> isspace (hd s) \<and> \<not> isspace (last s)))"

definition group_inv :: "'t group_state \<Rightarrow> bool" where
  "group_inv st = (trimmed (current_sentence st) \<and> (current_sentence st = [] \<longleftrightarrow> sentence_start st = None))"

section \<open>The text reinjector\<close>

text \<open>
  \<open>scan\<close> is the inner \<^verbatim>\<open>while\<close> loop of \<^verbatim>\<open>reinject_case_and_characters\<close>: it returns
  the new value of \<^verbatim>\<open>script_index\<close> and the candidate adopted, if any.  \<open>reinject_step\<close>
  is the body of the \<^verbatim>\<open>for\<close> loop on the state (\<^verbatim>\<open>script_index\<close>, \<^verbatim>\<open>updated_intervals\<close>).
\<close>

function scan :: "string list \<Rightarrow> string \<Rightarrow> nat \<Rightarrow> nat \<times> string option" where
  "scan words_from_script word script_index =
     (if script_index < length words_from_script then
        let candidate = words_from_script ! script_index;
            script_index' = script_index + 1
        in if clean candidate = clean word then (script_index', Some candidate)
           else scan words_from_script word script_index'
      else (script_index, None))"
  by pat_completeness auto
termination
  by (relation "measure (\<lambda>(ws, w, i). length ws - i)") auto

declare scan.simps [simp del]

definition reinject_step ::
  "string list \<Rightarrow> nat \<times> 't interval list \<Rightarrow> 't interval \<Rightarrow> nat \<times> 't interval list" where
  "reinject_step words_from_script st interval =
     (let word = get_text interval in
      if strip word = [] then st
      else
        case scan words_from_script word (fst st) of
          (script_index, Some candidate) \<Rightarrow>
            (script_index, snd st @ [interval\<lparr>text := Some candidate\<rparr>])
        | (script_index, None) \<Rightarrow> (script_index, snd st @ [interval]))"

fun reinject_loop ::
  "string list \<Rightarrow> nat \<times> 't interval list \<Rightarrow> 't interval list \<Rightarrow> nat \<times> 't interval list" where
  "reinject_loop words_from_script st [] = st"
| "reinject_loop words_from_script st (interval # rest) =
     reinject_loop words_from_script (reinject_step words_from_script st interval) rest"

definition reinject_case_and_characters :: "'t interval list \<Rightarrow> string \<Rightarrow> 't interval list" where
  "reinject_case_and_characters word_intervals original_script =
     snd (reinject_loop (findall_nonspace original_script) (0, []) word_intervals)"

text \<open>
  \<open>matched_indices\<close> is not part of the program: it records, for every interval the
  loop keeps, the index of the transcript token it adopted (the value of
  \<^verbatim>\<open>script_index - 1\<close> at the \<^verbatim>\<open>break\<close>), or \<open>None\<close> when the scan ran off the end.
\<close>

fun matched_indices :: "string list \<Rightarrow> nat \<Rightarrow> 't interval list \<Rightarrow> nat option list" where
  "matched_indices words_from_script script_index [] = []"
| "matched_indices words_from_script script_index (interval # rest) =
     (let word = get_text interval in
      if strip word = [] then matched_indices words_from_script script_index rest
      else
        case scan words_from_script word script_index of
          (script_index', Some candidate) \<Rightarrow>
            Some (script_index' - 1) # matched_indices words_from_script script_index' rest
        | (script_index', None) \<Rightarrow> None # matched_indices words_from_script script_index' rest)"

definition nonblank :: "('t, 'z) interval_scheme \<Rightarrow> bool" where
  "nonblank w = (strip (get_text w) \<noteq> [])"

definition spec_normalize :: "string \<Rightarrow> string" where
  \<comment> \<open>The normalisation in the specification's words: strip all non-alphanumeric
      characters, lowercase.  The program's own normalisation is \<open>clean\<close>.\<close>
  "spec_normalize s = lower (filter isalnum s)"

section \<open>The interval parser\<close>

text \<open>
  The file system is a partial map from paths to text files, a file being the list of its
  lines as the iteration over the open file yields them; a path outside its domain does
  not exist.  Python's \<^verbatim>\<open>float\<close> applied to a string is a parameter \<open>float\<close> of the parser:
  \<open>None\<close> stands for its \<^verbatim>\<open>ValueError\<close>.
\<close>

record 't parse_state =
  intervals :: "'t interval list"
  current_interval :: "'t interval"
  in_words_tier :: bool

definition empty_interval :: "'t interval" where
  "empty_interval = \<lparr>xmin = None, xmax = None, text = None\<rparr>"

definition parse_init :: "'t parse_state" where
  "parse_init = \<lparr>intervals = [], current_interval = empty_interval, in_words_tier = False\<rparr>"

definition parse_line :: "(string \<Rightarrow> 't option) \<Rightarrow> 't parse_state \<Rightarrow> string \<Rightarrow> py_error + 't parse_state" where
  "parse_line float st raw =
     (let line = strip raw in
      if startswith line ''name ='' then
        (case item (split_on CHR ''='' line) 1 of
           Inl e \<Rightarrow> Inl e
         | Inr field \<Rightarrow>
             let tier_name = strip_chars [CHR 0x22] (strip field)
             in Inr (st\<lparr>in_words_tier := (lower tier_name = ''words'')\<rparr>))
      else if in_words_tier st \<and> startswith line ''xmin ='' then
        (case item (split_on CHR ''='' line) 1 of
           Inl e \<Rightarrow> Inl e
         | Inr field \<Rightarrow>
             (case float (strip field) of
                None \<Rightarrow> Inl ValueError
              | Some v \<Rightarrow> Inr (st\<lparr>current_interval := (current_interval st)\<lparr>xmin := Some v\<rparr>\<rparr>)))
      else if in_words_tier st \<and> startswith line ''xmax ='' then
        (case item (split_on CHR ''='' line) 1 of
           Inl e \<Rightarrow> Inl e
         | Inr field \<Rightarrow>
             (case float (strip field) of
                None \<Rightarrow> Inl ValueError
              | Some v \<Rightarrow> Inr (st\<lparr>current_interval := (current_interval st)\<lparr>xmax := Some v\<rparr>\<rparr>)))
      else if in_words_tier st \<and> startswith line ''text ='' then
        (case item (split_once CHR ''='' line) 1 of
           Inl e \<Rightarrow> Inl e
         | Inr field \<Rightarrow>
             let text_val = strip_chars [CHR 0x22] (strip field)
             in Inr (st\<lparr>intervals := intervals st @ [(current_interval st)\<lparr>text := Some text_val\<rparr>],
                       current_interval := empty_interval\<rparr>))
      else Inr st)"

fun parse_lines :: "(string \<Rightarrow> 't option) \<Rightarrow> 't parse_state \<Rightarrow> string list \<Rightarrow> py_error + 't parse_state" where
  "parse_lines float st [] = Inr st"
| "parse_lines float st (line # rest) =
     (case parse_line float st line of
        Inl e \<Rightarrow> Inl e
      | Inr st' \<Rightarrow> parse_lines float st' rest)"

definition parse_textgrid ::
  "(string \<Rightarrow> 't option) \<Rightarrow> (string \<Rightarrow> string list option) \<Rightarrow> string \<Rightarrow> py_error + 't interval list" where
  "parse_textgrid float fs file_path =
     (case fs file_path of
        None \<Rightarrow> Inl FileNotFoundError
      | Some lines \<Rightarrow>
          (case parse_lines float parse_init lines of
             Inl e \<Rightarrow> Inl e
           | Inr st \<Rightarrow> Inr (intervals st)))"

text \<open>
  \<open>float_decimal\<close> reads the plain decimal numerals \<^verbatim>\<open>d+\<close> and \<^verbatim>\<open>d+.d*\<close>.  It is used for
  \<open>float\<close> at concrete documents only; on the strings that occur there it agrees with
  Python's \<^verbatim>\<open>float\<close>, which accepts more forms.
\<close>

definition isdigit :: "char \<Rightarrow> bool" where
  "isdigit c = (let n = (of_char c :: nat) in 48 \<le> n \<and> n \<le> 57)"

definition digits_value :: "string \<Rightarrow> nat" where
  "digits_value ds = foldl (\<lambda>a c. 10 * a + (of_char c - 48)) 0 ds"

definition float_decimal :: "string \<Rightarrow> real option" where
  "float_decimal s =
     (let ip = takeWhile isdigit s; rest = dropWhile isdigit s in
      if ip = [] then None
      else if rest = [] then Some (of_nat (digits_value ip))
      else if hd rest = CHR ''.'' \<and> list_all isdigit (tl rest) then
        Some (of_nat (digits_value ip) + of_nat (digits_value (tl rest)) / 10 ^ length (tl rest))
      else None)"

text \<open>
  The parser's result described from the document.  A line is classified by the prefix of
  its stripped form.  \<open>words_flag pre\<close> says that the most recent tier-name line of the
  lines \<open>pre\<close> names the words tier, as the program decides it; \<open>emitted doc\<close> are the
  positions of the text lines met under that flag; \<open>last_bound\<close> is the value of the most
  recent bound line met under the flag since the last such text line.
\<close>

definition is_name_line :: "string \<Rightarrow> bool" where
  "is_name_line l = startswith (strip l) ''name =''"

definition is_xmin_line :: "string \<Rightarrow> bool" where
  "is_xmin_line l = startswith (strip l) ''xmin =''"

definition is_xmax_line :: "string \<Rightarrow> bool" where
  "is_xmax_line l = startswith (strip l) ''xmax =''"

definition is_text_line :: "string \<Rightarrow> bool" where
  "is_text_line l = startswith (strip l) ''text =''"

definition eq_field :: "string \<Rightarrow> string" where
  "eq_field l = strip (split_on CHR ''='' (strip l) ! 1)"

definition names_words :: "string \<Rightarrow> bool" where
  "names_words l = (lower (strip_chars [CHR 0x22] (eq_field l)) = ''words'')"

definition text_value :: "string \<Rightarrow> string" where
  "text_value l = strip_chars [CHR 0x22] (strip (split_once CHR ''='' (strip l) ! 1))"

definition words_flag :: "string list \<Rightarrow> bool" where
  "words_flag pre = (case rev (filter is_name_line pre) of [] \<Rightarrow> False | l # _ \<Rightarrow> names_words l)"

definition emits :: "string list \<Rightarrow> nat \<Rightarrow> bool" where
  "emits doc i = (is_text_line (doc ! i) \<and> words_flag (take i doc))"

definition emitted :: "string list \<Rightarrow> nat list" where
  "emitted doc = filter (emits doc) [0..<length doc]"

definition pending :: "(string \<Rightarrow> bool) \<Rightarrow> string list \<Rightarrow> nat list" where
  "pending sel pre =
     filter (\<lambda>j. sel (pre ! j) \<and> words_flag (take j pre) \<and> (\<forall>e\<in>{j..<length pre}. \<not> emits pre e))
       [0..<length pre]"

definition last_bound :: "(string \<Rightarrow> bool) \<Rightarrow> (string \<Rightarrow> 't option) \<Rightarrow> string list \<Rightarrow> 't option" where
  "last_bound sel float pre =
     (case rev (pending sel pre) of [] \<Rightarrow> None | j # _ \<Rightarrow> float (eq_field (pre ! j)))"

definition interval_at :: "(string \<Rightarrow> 't option) \<Rightarrow> string list \<Rightarrow> nat \<Rightarrow> 't interval" where
  "interval_at float doc i =
     \<lparr>xmin = last_bound is_xmin_line float (take i doc),
      xmax = last_bound is_xmax_line float (take i doc),
      text = Some (text_value (doc ! i))\<rparr>"

definition bad_number :: "(string \<Rightarrow> 't option) \<Rightarrow> string list \<Rightarrow> nat \<Rightarrow> bool" where
  "bad_number float doc i =
     ((is_xmin_line (doc ! i) \<or> is_xmax_line (doc ! i)) \<and> words_flag (take i doc) \<and>
      float (eq_field (doc ! i)) = None)"

definition state_of :: "(string \<Rightarrow> 't option) \<Rightarrow> string list \<Rightarrow> 't parse_state" where
  "state_of float pre =
     \<lparr>intervals = map (interval_at float pre) (emitted pre),
      current_interval = \<lparr>xmin = last_bound is_xmin_line float pre,
                          xmax = last_bound is_xmax_line float pre, text = None\<rparr>,
      in_words_tier = words_flag pre\<rparr>"

section \<open>Example data\<close>

definition word_hi :: "real interval" where
  "word_hi = \<lparr>xmin = Some 0, xmax = Some 1, text = Some ''Hi''\<rparr>"

definition word_there :: "real interval" where
  "word_there = \<lparr>xmin = Some 1, xmax = Some 2, text = Some ''there.''\<rparr>"

definition word_you :: "real interval" where
  "word_you = \<lparr>xmin = Some 2, xmax = Some 3, text = Some ''you''\<rparr>"

definition word_blank :: "real interval" where
  "word_blank = \<lparr>xmin = Some 3, xmax = Some 4, text = Some '' ''\<rparr>"

definition aligned_words :: "real interval list" where
  "aligned_words =
     [\<lparr>xmin = Some 0, xmax = Some 1, text = Some ''hello''\<rparr>,
      \<lparr>xmin = Some 1, xmax = Some 2, text = Some []\<rparr>,
      \<lparr>xmin = Some 2, xmax = Some 3, text = Some ''world''\<rparr>,
      \<lparr>xmin = Some 3, xmax = Some 4, text = Some ''dont''\<rparr>]"

definition transcript :: string where
  "transcript = ''Hello big  world, Don't''"

definition quoted :: "string \<Rightarrow> string" where
  "quoted s = [CHR 0x22] @ s @ [CHR 0x22]"

definition textgrid_two_tiers :: "string list" where
  "textgrid_two_tiers =
     [''File type = '' @ quoted ''ooTextFile'',
      ''xmin = 0'',
      ''xmax = 3.5'',
      ''    item [1]:'',
      ''        name = '' @ quoted ''Words'',
      ''        xmin = 0'',
      ''        xmax = 3.5'',
      ''        intervals [1]:'',
      ''            xmin = 0'',
      ''            xmax = 1.25'',
      ''            text = '' @ quoted ''hi'',
      ''        intervals [2]:'',
      ''            xmin = 1.25'',
      ''            xmax = 3.5'',
      ''            text = '' @ quoted ''there'',
      ''    item [2]:'',
      ''        name = '' @ quoted ''phones'',
      ''        intervals [1]:'',
      ''            xmin = abc'',
      ''            xmax = 1'',
      ''            text = '' @ quoted ''HH'']"

definition textgrid_bad_words :: "string list" where
  "textgrid_bad_words = [''name = '' @ quoted ''words'', ''xmin = abc'']"

definition textgrid_phones_only :: "string list" where
  "textgrid_phones_only =
     [''name = '' @ quoted ''phones'', ''xmin = 0'', ''xmax = 1'', ''text = '' @ quoted ''AH'']"

definition textgrid_missing_bounds :: "string list" where
  "textgrid_missing_bounds =
     [''name = '' @ quoted ''words'',
      ''xmin = 0'', ''xmax = 1.25'', ''text = '' @ quoted ''a'',
      ''text = '' @ quoted ''b'',
      ''xmin = 2'', ''xmax = 3.5'', ''text = '' @ quoted ''c.'']"

definition textgrid_equals_in_name :: "string list" where
  "textgrid_equals_in_name =
     [''name = '' @ quoted ''words=draft'', ''xmin = 0'', ''xmax = 1'', ''text = '' @ quoted ''hi'']"

definition sample_fs :: "string \<Rightarrow> string list option" where
  "sample_fs p =
     (if p = ''two_tiers.TextGrid'' then Some textgrid_two_tiers
      else if p = ''bad_words.TextGrid'' then Some textgrid_bad_words
      else if p = ''phones_only.TextGrid'' then Some textgrid_phones_only
      else if p = ''missing_bounds.TextGrid'' then Some textgrid_missing_bounds
      else if p = ''equals_in_name.TextGrid'' then Some textgrid_equals_in_name
      else None)"

section \<open>Properties of the timestamp formatter\<close>

text \<open>
  Rounding to a double: a number that is a 53-bit integer after scaling by a power of two
  is rounded at that scale, and integers below \<open>2 ^ 53\<close> are doubles.
\<close>

lemma py_round_of_int: "py_round (of_int n) = n"
  by (simp add: py_round_def)

lemma round_to_double_zero: "round_to_double 0 = 0"
  by (simp add: round_to_double_def)

lemma round_to_double_normal:
  assumes "2 ^ 52 \<le> x * 2 ^ a" and "x * 2 ^ a < 2 ^ 53" and "a \<le> subnormal_shift"
  shows "round_to_double x = of_int (py_round (x * 2 ^ a)) / 2 ^ a"
proof -
  define r where "r = subnormal_shift - a"
  have sh: "subnormal_shift = a + r" using assms(3) by (simp add: r_def)
  have pos: "0 < x"
  proof (rule ccontr)
    assume "\<not> 0 < x"
    then have "x * 2 ^ a \<le> 0" by (simp add: mult_le_0_iff)
    with assms(1) show False
      by (smt (verit) zero_less_power)
  qed
  define y where "y = \<bar>x\<bar> * 2 ^ subnormal_shift"
  have y: "y = (x * 2 ^ a) * 2 ^ r"
    using pos by (simp add: y_def sh power_add)
  have lo: "(2::real) ^ (52 + r) \<le> y"
    using assms(1) by (simp add: y power_add)
  have hi: "y < (2::real) ^ (53 + r)"
    using assms(2) by (simp add: y power_add)
  have "of_int (2 ^ (52 + r)) \<le> y" using lo by simp
  then have flo: "(2::int) ^ (52 + r) \<le> \<lfloor>y\<rfloor>" by (simp only: le_floor_iff)
  have "y < of_int (2 ^ (53 + r))" using hi by simp
  then have fhi: "\<lfloor>y\<rfloor> < (2::int) ^ (53 + r)" by (simp only: floor_less_iff)
  have b1: "bitlen \<lfloor>y\<rfloor> \<le> int (53 + r)"
    using fhi unfolding bitlen_le_iff_power nat_int by simp
  have "53 + r - 1 = 52 + r" by simp
  then have b2: "int (53 + r) \<le> bitlen \<lfloor>y\<rfloor>"
    using flo unfolding bitlen_ge_iff_power nat_int by simp
  from b1 b2 have "nat (bitlen \<lfloor>y\<rfloor> - 53) = r" by simp
  moreover have "y / 2 ^ r = x * 2 ^ a" by (simp add: y)
  moreover have "sgn x = 1" using pos by simp
  ultimately have "round_to_double x = of_int (py_round (x * 2 ^ a)) * 2 ^ r / 2 ^ (a + r)"
    unfolding round_to_double_def Let_def y_def [symmetric] by (simp add: sh)
  then show ?thesis by (simp add: power_add)
qed

lemma round_to_double_of_int:
  assumes "0 \<le> n" "n < 2 ^ 53"
  shows "round_to_double (of_int n) = of_int n"
proof (cases "n = 0")
  case True
  then show ?thesis by (simp add: round_to_double_zero)
next
  case False
  with assms have pos: "0 < n" by simp
  define b where "b = nat (bitlen n)"
  have bb: "bitlen n = int b" by (simp add: b_def bitlen_nonneg)
  have b_pos: "0 < b" using pos bb bitlen_eq_zero_iff [of n] by (cases b) auto
  from bitlen_bounds [OF pos] have bnd: "2 ^ (b - 1) \<le> n" "n < 2 ^ b"
    by (simp_all add: bb nat_diff_distrib')
  have "b \<le> 53"
  proof -
    have "bitlen n \<le> 53" using assms(2) by (simp add: bitlen_le_iff_power)
    then show ?thesis by (simp add: bb)
  qed
  define a where "a = 53 - b"
  have ab: "a + b = 53" "a + (b - 1) = 52" using \<open>b \<le> 53\<close> b_pos by (simp_all add: a_def)
  have "(2::int) ^ 52 = 2 ^ (a + (b - 1))" by (simp only: ab)
  also have "\<dots> = 2 ^ a * 2 ^ (b - 1)" by (rule power_add)
  also have "\<dots> \<le> 2 ^ a * n" using bnd(1) by simp
  finally have l: "(2::int) ^ 52 \<le> n * 2 ^ a" by (simp add: mult.commute)
  have "n * 2 ^ a < 2 ^ b * 2 ^ a" using bnd(2) by simp
  also have "(2::int) ^ b * 2 ^ a = 2 ^ (a + b)" by (simp add: power_add)
  finally have h: "n * 2 ^ a < (2::int) ^ 53" by (simp only: ab)
  have l': "(2::real) ^ 52 \<le> of_int n * 2 ^ a"
  proof -
    have "of_int ((2::int) ^ 52) \<le> (of_int (n * 2 ^ a) :: real)" using l by (simp only: of_int_le_iff)
    then show ?thesis by simp
  qed
  have h': "of_int n * 2 ^ a < (2::real) ^ 53"
  proof -
    have "(of_int (n * 2 ^ a) :: real) < of_int ((2::int) ^ 53)" using h by (simp only: of_int_less_iff)
    then show ?thesis by simp
  qed
  have "a \<le> subnormal_shift" by (simp add: a_def subnormal_shift_def)
  from round_to_double_normal [OF l' h' this]
  have "round_to_double (of_int n) = of_int (py_round (of_int (n * 2 ^ a))) / 2 ^ a"
    by simp
  then show ?thesis by (simp only: py_round_of_int) simp
qed



lemma fmod_nonneg:
  assumes "0 \<le> x" "0 < y"
  shows "fmod x y = x - y * of_int \<lfloor>x / y\<rfloor>" and "0 \<le> fmod x y" and "fmod x y < y"
proof -
  have q: "0 \<le> x / y" using assms by simp
  then show e: "fmod x y = x - y * of_int \<lfloor>x / y\<rfloor>"
    by (simp add: fmod_def py_int_def)
  have "of_int \<lfloor>x / y\<rfloor> \<le> x / y" by linarith
  then have "y * of_int \<lfloor>x / y\<rfloor> \<le> x"
    using assms by (simp add: le_divide_eq mult.commute)
  then show "0 \<le> fmod x y" by (simp add: e)
  have "x / y < of_int \<lfloor>x / y\<rfloor> + 1" by linarith
  then have "x < (of_int \<lfloor>x / y\<rfloor> + 1) * y"
    using assms(2) by (simp only: pos_divide_less_eq)
  then show "fmod x y < y" by (simp add: e algebra_simps)
qed

lemma py_mod_nonneg:
  assumes "0 \<le> x" "0 < y"
  shows "py_mod x y = x - y * of_int \<lfloor>x / y\<rfloor>" and "0 \<le> py_mod x y" and "py_mod x y < y"
proof -
  have "\<not> (y < 0)" "\<not> (fmod x y < 0)"
    using assms fmod_nonneg(2) [OF assms] by simp_all
  then have e: "py_mod x y = fmod x y" by (simp add: py_mod_def)
  show "py_mod x y = x - y * of_int \<lfloor>x / y\<rfloor>" "0 \<le> py_mod x y" "py_mod x y < y"
    using fmod_nonneg [OF assms] by (simp_all add: e)
qed

lemma py_floordiv_nonneg:
  assumes "0 \<le> x" "x < 2 ^ 53" "0 < k"
  shows "py_floordiv x (of_int k) = of_int \<lfloor>x / of_int k\<rfloor>"
proof -
  define q where "q = \<lfloor>x / of_int k\<rfloor>"
  have ky: "(0::real) < of_int k" using assms(3) by simp
  have q0: "0 \<le> q" using assms(1) ky by (simp add: q_def)
  have m: "fmod x (of_int k) = x - of_int k * of_int q"
    unfolding q_def using assms(1) ky by (rule fmod_nonneg(1))
  have m0: "0 \<le> fmod x (of_int k)" using assms(1) ky by (rule fmod_nonneg(2))
  have kq_le: "of_int (k * q) \<le> x" using m m0 by simp
  have kq0: "0 \<le> k * q" using assms(3) q0 by simp
  have "(of_int (k * q) :: real) < of_int ((2::int) ^ 53)" using kq_le assms(2) by simp
  then have kq53: "k * q < 2 ^ 53" by (simp only: of_int_less_iff)
  have "q \<le> k * q" using assms(3) q0 by (simp add: mult_le_cancel_right1)
  then have q53: "q < 2 ^ 53" using kq53 by simp
  have nadj: "\<not> (fmod x (of_int k) \<noteq> 0 \<and> ((of_int k :: real) < 0) \<noteq> (fmod x (of_int k) < 0))"
    using ky m0 by simp
  have xm: "x - fmod x (of_int k) = of_int (k * q)" by (simp add: m)
  have r1: "round_to_double (x - fmod x (of_int k)) = of_int (k * q)"
    unfolding xm using kq0 kq53 by (rule round_to_double_of_int)
  have "(of_int (k * q) :: real) / of_int k = of_int q" using ky by simp
  then have r2: "round_to_double (round_to_double (x - fmod x (of_int k)) / of_int k) = of_int q"
    unfolding r1 using round_to_double_of_int [OF q0 q53] by simp
  show ?thesis
    unfolding py_floordiv_def Let_def r2 q_def [symmetric] using nadj
    by (simp only: if_False) simp
qed

lemma timestamp_fields_nonneg:
  assumes "0 \<le> seconds" "seconds < 2 ^ 53"
  shows "timestamp_fields seconds =
     \<lparr> hours = \<lfloor>seconds\<rfloor> div 3600,
       minutes = (\<lfloor>seconds\<rfloor> mod 3600) div 60,
       secs = \<lfloor>seconds\<rfloor> mod 60,
       milliseconds =
         py_round (round_to_double (round_to_double (seconds - of_int \<lfloor>seconds\<rfloor>) * 1000)) \<rparr>"
proof -
  have h: "py_floordiv seconds 3600 = of_int \<lfloor>seconds / 3600\<rfloor>"
    using py_floordiv_nonneg [OF assms, of 3600] by simp
  have h': "\<lfloor>seconds / 3600\<rfloor> = \<lfloor>seconds\<rfloor> div 3600"
    using floor_divide_real_eq_div [of 3600 seconds] by simp
  have m0: "0 \<le> py_mod seconds 3600" "py_mod seconds 3600 < 3600"
    using py_mod_nonneg(2,3) [OF assms(1), of 3600] by simp_all
  then have m53: "py_mod seconds 3600 < 2 ^ 53" by simp
  have m: "py_floordiv (py_mod seconds 3600) 60 = of_int \<lfloor>py_mod seconds 3600 / 60\<rfloor>"
    using py_floordiv_nonneg [OF m0(1) m53, of 60] by simp
  have fm: "\<lfloor>py_mod seconds 3600\<rfloor> = \<lfloor>seconds\<rfloor> mod 3600"
  proof -
    have "py_mod seconds 3600 = seconds - of_int (3600 * (\<lfloor>seconds\<rfloor> div 3600))"
      using py_mod_nonneg(1) [OF assms(1), of 3600] h' by simp
    then have "\<lfloor>py_mod seconds 3600\<rfloor> = \<lfloor>seconds\<rfloor> - 3600 * (\<lfloor>seconds\<rfloor> div 3600)"
      by (simp only: floor_diff_of_int)
    then show ?thesis by (simp add: minus_mult_div_eq_mod)
  qed
  have m': "\<lfloor>py_mod seconds 3600 / 60\<rfloor> = (\<lfloor>seconds\<rfloor> mod 3600) div 60"
    using floor_divide_real_eq_div [of 60 "py_mod seconds 3600"] fm by simp
  have s0: "0 \<le> py_mod seconds 60"
    using py_mod_nonneg(2) [OF assms(1), of 60] by simp
  have s: "\<lfloor>py_mod seconds 60\<rfloor> = \<lfloor>seconds\<rfloor> mod 60"
  proof -
    have "\<lfloor>seconds / 60\<rfloor> = \<lfloor>seconds\<rfloor> div 60"
      using floor_divide_real_eq_div [of 60 seconds] by simp
    then have "py_mod seconds 60 = seconds - of_int (60 * (\<lfloor>seconds\<rfloor> div 60))"
      using py_mod_nonneg(1) [OF assms(1), of 60] by simp
    then have "\<lfloor>py_mod seconds 60\<rfloor> = \<lfloor>seconds\<rfloor> - 60 * (\<lfloor>seconds\<rfloor> div 60)"
      by (simp only: floor_diff_of_int)
    then show ?thesis by (simp add: minus_mult_div_eq_mod)
  qed
  have q0: "0 \<le> \<lfloor>seconds / 3600\<rfloor>" "0 \<le> \<lfloor>py_mod seconds 3600 / 60\<rfloor>"
    using assms(1) m0(1) by simp_all
  show ?thesis
    using assms(1) s0 q0
    by (simp add: timestamp_fields_def h m py_int_def h' m' s)
qed

lemma round_to_double_eval:
  assumes "py_round (x * 2 ^ a) = n" and "2 ^ 52 \<le> x * 2 ^ a" and "x * 2 ^ a < 2 ^ 53"
    and "a \<le> 1074"
  shows "round_to_double x = of_int n / 2 ^ a"
  using round_to_double_normal [of x a] assms by (simp add: subnormal_shift_def)

lemma milliseconds_eval:
  assumes "0 \<le> seconds" and "seconds < 2 ^ 53"
    and "seconds - of_int \<lfloor>seconds\<rfloor> = fr"
    and "py_round (fr * 2 ^ a) = n" and "2 ^ 52 \<le> fr * 2 ^ a" and "fr * 2 ^ a < 2 ^ 53"
    and "a \<le> 1074"
    and "of_int n / 2 ^ a * 1000 = pr"
    and "py_round (pr * 2 ^ b) = m" and "2 ^ 52 \<le> pr * 2 ^ b" and "pr * 2 ^ b < 2 ^ 53"
    and "b \<le> 1074"
    and "py_round (of_int m / 2 ^ b) = ms"
  shows "timestamp_fields seconds =
     \<lparr> hours = \<lfloor>seconds\<rfloor> div 3600, minutes = (\<lfloor>seconds\<rfloor> mod 3600) div 60,
       secs = \<lfloor>seconds\<rfloor> mod 60, milliseconds = ms \<rparr>"
proof -
  have 1: "round_to_double fr = of_int n / 2 ^ a"
    using assms(4-7) by (rule round_to_double_eval)
  have 2: "round_to_double pr = of_int m / 2 ^ b"
    using assms(9-12) by (rule round_to_double_eval)
  show ?thesis
    unfolding timestamp_fields_nonneg [OF assms(1,2)] assms(3) 1 assms(8) 2 assms(13) ..
qed

text \<open>
  C1 (the program deviates).  The claim asks that a millisecond value of 1000 be carried
  into the seconds.  The program has no carry: at 3661.9996 it prints a four-digit
  millisecond field, and so it does at 2047/2048 = 0.99951171875, an input at which every
  floating-point operation of the program is exact.
\<close>

theorem seconds_to_timestamp_no_carry:
  "seconds_to_timestamp (36619996 / 10000) = ''01:01:01,1000'' \<and>
   seconds_to_timestamp (2047 / 2048) = ''00:00:00,1000''"
proof -
  have a: "timestamp_fields (36619996 / 10000) =
      \<lparr> hours = \<lfloor>36619996 / 10000 :: real\<rfloor> div 3600,
        minutes = (\<lfloor>36619996 / 10000 :: real\<rfloor> mod 3600) div 60,
        secs = \<lfloor>36619996 / 10000 :: real\<rfloor> mod 60, milliseconds = 1000 \<rparr>"
  proof (rule milliseconds_eval [where fr = "2499 / 2500" and a = 53 and n = 9003596375039096
        and pr = "140681193359985875 / 140737488355328" and b = 43 and m = 8792574584999117])
    show "py_round (2499 / 2500 * 2 ^ 53) = 9003596375039096" by code_simp
    show "py_round (140681193359985875 / 140737488355328 * 2 ^ 43) = 8792574584999117" by code_simp
    show "py_round (real_of_int 8792574584999117 / 2 ^ 43) = 1000" by code_simp
  qed simp_all
  have b: "timestamp_fields (2047 / 2048) =
      \<lparr> hours = \<lfloor>2047 / 2048 :: real\<rfloor> div 3600,
        minutes = (\<lfloor>2047 / 2048 :: real\<rfloor> mod 3600) div 60,
        secs = \<lfloor>2047 / 2048 :: real\<rfloor> mod 60, milliseconds = 1000 \<rparr>"
  proof (rule milliseconds_eval [where fr = "2047 / 2048" and a = 53 and n = 9002801208229888
        and pr = "255875 / 256" and b = 43 and m = 8791798054912000])
    show "py_round (2047 / 2048 * 2 ^ 53) = 9002801208229888" by code_simp
    show "py_round (255875 / 256 * 2 ^ 43) = 8791798054912000" by code_simp
    show "py_round (real_of_int 8791798054912000 / 2 ^ 43) = 1000" by code_simp
  qed simp_all
  have f: "format_int 2 1 @ '':'' @ format_int 2 1 @ '':'' @ format_int 2 1 @ '','' @
      format_int 3 1000 = ''01:01:01,1000''"
    "format_int 2 0 @ '':'' @ format_int 2 0 @ '':'' @ format_int 2 0 @ '','' @
      format_int 3 1000 = ''00:00:00,1000''"
    by code_simp+
  show ?thesis
    unfolding seconds_to_timestamp_def Let_def a b using f by simp
qed






section \<open>Properties of the cue grouper\<close>

lemma dropWhile_hd_self: "s \<noteq> [] \<Longrightarrow> \<not> P (hd s) \<Longrightarrow> dropWhile P s = s"
  by (cases s) auto

lemma strip_eq_self:
  assumes "s \<noteq> []" "\<not> isspace (hd s)" "\<not> isspace (last s)"
  shows "strip s = s"
proof -
  have 1: "dropWhile isspace s = s"
    using assms by (simp add: dropWhile_hd_self)
  have "rev s \<noteq> []" "\<not> isspace (hd (rev s))"
    using assms by (simp_all add: hd_rev)
  then have "dropWhile isspace (rev s) = rev s"
    by (rule dropWhile_hd_self)
  with 1 show ?thesis by (simp add: strip_def)
qed

lemma last_dropWhile_nonempty: "dropWhile P xs \<noteq> [] \<Longrightarrow> last (dropWhile P xs) = last xs"
proof -
  assume a: "dropWhile P xs \<noteq> []"
  have "xs = takeWhile P xs @ dropWhile P xs" by simp
  then have "last xs = last (takeWhile P xs @ dropWhile P xs)" by simp
  also have "\<dots> = last (dropWhile P xs)" using a by (rule last_appendR)
  finally show ?thesis by simp
qed

lemma strip_ends:
  assumes "strip s \<noteq> []"
  shows "\<not> isspace (hd (strip s))" and "\<not> isspace (last (strip s))"
proof -
  define t where "t = dropWhile isspace s"
  define u where "u = dropWhile isspace (rev t)"
  have su: "strip s = rev u" by (simp add: strip_def t_def u_def)
  with assms have u: "u \<noteq> []" by simp
  then have "\<not> isspace (hd u)" unfolding u_def by (rule hd_dropWhile)
  then show "\<not> isspace (last (strip s))" using u by (simp add: su last_rev)
  have "last u = last (rev t)" using u unfolding u_def by (rule last_dropWhile_nonempty)
  moreover have t: "t \<noteq> []" using u by (auto simp: u_def)
  ultimately have "last u = hd t" by (simp add: last_rev)
  moreover have "\<not> isspace (hd t)" using t unfolding t_def by (rule hd_dropWhile)
  ultimately show "\<not> isspace (hd (strip s))" using u by (simp add: su hd_rev)
qed

lemma group_loop_append:
  "group_loop m st (xs @ ys) = (case group_loop m st xs of Inl e \<Rightarrow> Inl e | Inr st' \<Rightarrow> group_loop m st' ys)"
  by (induction xs arbitrary: st) (auto split: sum.splits)

lemma trimmed_strip: "trimmed (strip s)"
  using strip_ends [of s] by (auto simp: trimmed_def)

lemma isspace_space: "isspace CHR '' ''"
  by (simp add: isspace_def)

lemma trimmed_join:
  assumes "trimmed a" "trimmed b" "a \<noteq> []" "b \<noteq> []"
  shows "trimmed (a @ CHR '' '' # b)"
  using assms by (auto simp: trimmed_def)

lemma trimmed_strip_id: "trimmed s \<Longrightarrow> strip s = s"
  by (cases "s = []") (auto simp: trimmed_def strip_eq_self, simp add: strip_def)

lemma group_step_inv:
  assumes "group_inv st" "group_step m st w = Inr st'"
  shows "group_inv st'"
  using assms trimmed_strip [of "get_text w"]
  by (auto simp: group_step_def group_inv_def Let_def trimmed_join trimmed_def[of "[]"] split: if_splits option.splits sum.splits)

lemma group_loop_inv:
  "group_inv st \<Longrightarrow> group_loop m st ws = Inr st' \<Longrightarrow> group_inv st'"
  by (induction ws arbitrary: st) (auto split: sum.splits dest: group_step_inv)

lemma group_init_inv: "group_inv group_init"
  by (simp add: group_inv_def group_init_def trimmed_def)

lemma group_step_prefix: "group_step m st w = Inr st' \<Longrightarrow> prefix (subtitles st) (subtitles st')"
  by (auto simp: group_step_def Let_def split: if_splits option.splits sum.splits)

lemma group_loop_prefix: "group_loop m st ws = Inr st' \<Longrightarrow> prefix (subtitles st) (subtitles st')"
proof (induction ws arbitrary: st)
  case Nil
  then show ?case by simp
next
  case (Cons w ws)
  then obtain st1 where 1: "group_step m st w = Inr st1" and 2: "group_loop m st1 ws = Inr st'"
    by (auto split: sum.splits)
  from group_step_prefix [OF 1] Cons.IH [OF 2] show ?case
    by (rule prefix_order.trans)
qed

lemma group_words_prefix:
  assumes "group_words_into_sentences ws m = Inr out"
  shows "\<exists>st. group_loop m group_init ws = Inr st \<and> prefix (subtitles st) out"
  using assms
  by (auto simp: group_words_into_sentences_def split: sum.splits option.splits if_splits)

lemma group_step_closing:
  assumes "group_inv st" and "group_step m st w = Inr st'" and "strip (get_text w) \<noteq> []"
  shows "let word_text = strip (get_text w);
             new_sentence = (if current_sentence st \<noteq> [] then current_sentence st @ '' '' @ word_text
                             else word_text)
         in if m < int (length new_sentence) \<or> last word_text \<in> {CHR ''.'', CHR ''!'', CHR ''?''}
            then \<exists>start e. xmax w = Some e \<and>
                   (start = (case sentence_start st of None \<Rightarrow> the (xmin w) | Some a \<Rightarrow> a)) \<and>
                   subtitles st' = subtitles st @ [(start, e, new_sentence)] \<and>
                   current_sentence st' = [] \<and> sentence_start st' = None
            else subtitles st' = subtitles st \<and> current_sentence st' = new_sentence"
proof -
  have wt: "trimmed (strip (get_text w))"
    by (rule trimmed_strip)
  have id1: "strip (strip (get_text w)) = strip (get_text w)"
    using wt by (rule trimmed_strip_id)
  have id2: "strip (current_sentence st @ CHR '' '' # strip (get_text w)) =
      current_sentence st @ CHR '' '' # strip (get_text w)" if "current_sentence st \<noteq> []"
    using assms(1,3) wt that by (intro trimmed_strip_id trimmed_join) (simp_all add: group_inv_def)
  show ?thesis
    using assms(2,3)
    by (auto simp: group_step_def Let_def id1 id2 split: if_splits option.splits sum.splits)
qed

text \<open>
  C2.  Take any run of the grouper that returns, and any word of the input whose stripped
  text is not empty.  With \<open>st\<close> the state before the word and \<open>st'\<close> the state after
  it: a cue is appended at this word exactly when the candidate line is longer than
  \<open>max_chars\<close> or the word ends in one of \<open>.\<close>, \<open>!\<close>, \<open>?\<close>.  The appended cue has the
  candidate line, which ends with this word, as its text and the word's \<open>xmax\<close> as its
  end, and the line is reset; otherwise the candidate line is carried on.  The cues
  present after the word are a prefix of the final output.
\<close>

theorem cue_closed_iff:
  assumes "group_words_into_sentences (pre @ word # post) max_chars = Inr out"
    and "strip (get_text word) \<noteq> []"
  shows "\<exists>st st'. group_loop max_chars group_init pre = Inr st \<and>
           group_step max_chars st word = Inr st' \<and> prefix (subtitles st') out \<and>
           (let word_text = strip (get_text word);
                new_sentence = (if current_sentence st \<noteq> [] then current_sentence st @ '' '' @ word_text
                                else word_text)
            in if max_chars < int (length new_sentence) \<or> last word_text \<in> {CHR ''.'', CHR ''!'', CHR ''?''}
               then \<exists>start e. xmax word = Some e \<and>
                   (start = (case sentence_start st of None \<Rightarrow> the (xmin word) | Some a \<Rightarrow> a)) \<and>
                   subtitles st' = subtitles st @ [(start, e, new_sentence)] \<and>
                   current_sentence st' = [] \<and> sentence_start st' = None
               else subtitles st' = subtitles st \<and> current_sentence st' = new_sentence)"
proof -
  from group_words_prefix [OF assms(1)] obtain fin where
    fin: "group_loop max_chars group_init (pre @ word # post) = Inr fin" "prefix (subtitles fin) out"
    by blast
  from fin(1) obtain st where st: "group_loop max_chars group_init pre = Inr st"
    and rest: "group_loop max_chars st (word # post) = Inr fin"
    by (auto simp: group_loop_append split: sum.splits)
  from rest obtain st' where st': "group_step max_chars st word = Inr st'"
    and post: "group_loop max_chars st' post = Inr fin"
    by (auto split: sum.splits)
  have inv: "group_inv st"
    using group_init_inv st by (rule group_loop_inv)
  have "prefix (subtitles st') out"
    using group_loop_prefix [OF post] fin(2) by (rule prefix_order.trans)
  with st st' group_step_closing [OF inv st' assms(2)] show ?thesis
    by blast
qed

theorem cue_closed_iff_witness:
  "group_words_into_sentences ([word_hi] @ word_there # [word_you, word_blank]) 50 =
     Inr [(0, 2, ''Hi there.''), (2, 4, ''you'')] \<and>
   strip (get_text word_there) \<noteq> [] \<and>
   (\<exists>st st'. group_loop 50 group_init [word_hi] = Inr st \<and>
      group_step 50 st word_there = Inr st' \<and>
      subtitles st' = subtitles st @ [(0, 2, ''Hi there.'')] \<and>
      prefix (subtitles st') [(0, 2, ''Hi there.''), (2, 4, ''you'')])"
proof -
  have h1: "group_words_into_sentences ([word_hi] @ word_there # [word_you, word_blank]) 50 =
     Inr [(0, 2, ''Hi there.''), (2, 4, ''you'')]"
    by code_simp
  have h2: "strip (get_text word_there) \<noteq> []"
    by code_simp
  have l: "group_loop 50 group_init [word_hi] =
      Inr \<lparr>subtitles = [], current_sentence = ''Hi'', sentence_start = Some 0\<rparr>"
    by code_simp
  have wt: "strip (get_text word_there) = ''there.''"
    by code_simp
  from cue_closed_iff [OF h1 h2] obtain st st' where
    a: "group_loop 50 group_init [word_hi] = Inr st" and
    b: "group_step 50 st word_there = Inr st'" and
    p: "prefix (subtitles st') [(0, 2, ''Hi there.''), (2, 4, ''you'')]" and
    c: "let word_text = strip (get_text word_there);
            new_sentence = (if current_sentence st \<noteq> [] then current_sentence st @ '' '' @ word_text
                            else word_text)
        in if 50 < int (length new_sentence) \<or> last word_text \<in> {CHR ''.'', CHR ''!'', CHR ''?''}
           then \<exists>start e. xmax word_there = Some e \<and>
               (start = (case sentence_start st of None \<Rightarrow> the (xmin word_there) | Some a \<Rightarrow> a)) \<and>
               subtitles st' = subtitles st @ [(start, e, new_sentence)] \<and>
               current_sentence st' = [] \<and> sentence_start st' = None
           else subtitles st' = subtitles st \<and> current_sentence st' = new_sentence"
    by blast
  from a l have st: "st = \<lparr>subtitles = [], current_sentence = ''Hi'', sentence_start = Some 0\<rparr>"
    by simp
  from c have "subtitles st' = subtitles st @ [(0, 2, ''Hi there.'')]"
    unfolding Let_def wt st by (simp add: word_there_def)
  with h1 h2 a b p show ?thesis by blast
qed

text \<open>
  C3.  When the loop ends with a non-empty partial line, the grouper returns the cues
  closed so far followed by exactly one more cue: it starts at the recorded start of the
  partial line, its text is the partial line, and it ends at the \<open>xmax\<close> of the last
  interval of the whole input.
\<close>

theorem trailing_partial_line:
  assumes "group_loop max_chars group_init word_intervals = Inr st"
    and "current_sentence st \<noteq> []"
    and "xmax (last word_intervals) = Some e"
  shows "\<exists>start. sentence_start st = Some start \<and>
           group_words_into_sentences word_intervals max_chars =
             Inr (subtitles st @ [(start, e, current_sentence st)])"
proof -
  have inv: "group_inv st"
    using group_init_inv assms(1) by (rule group_loop_inv)
  with assms(2) obtain start where s: "sentence_start st = Some start"
    by (auto simp: group_inv_def)
  have id: "strip (current_sentence st) = current_sentence st"
    using inv by (simp add: group_inv_def trimmed_strip_id)
  have ne: "word_intervals \<noteq> []"
    using assms(1,2) by (auto simp: group_init_def)
  show ?thesis
    using assms s id ne by (simp add: group_words_into_sentences_def)
qed

theorem trailing_partial_line_witness:
  "group_loop 50 group_init [word_hi, word_there, word_you, word_blank] =
     Inr \<lparr>subtitles = [(0, 2, ''Hi there.'')], current_sentence = ''you'', sentence_start = Some 2\<rparr> \<and>
   xmax (last [word_hi, word_there, word_you, word_blank]) = Some 4 \<and>
   group_words_into_sentences [word_hi, word_there, word_you, word_blank] 50 =
     Inr [(0, 2, ''Hi there.''), (2, 4, ''you'')]"
proof -
  have h1: "group_loop 50 group_init [word_hi, word_there, word_you, word_blank] =
     Inr \<lparr>subtitles = [(0, 2, ''Hi there.'')], current_sentence = ''you'', sentence_start = Some 2\<rparr>"
    by code_simp
  have h2: "current_sentence \<lparr>subtitles = [(0::real, 2::real, ''Hi there.'')], current_sentence = ''you'',
      sentence_start = Some 2\<rparr> \<noteq> []"
    by simp
  have h3: "xmax (last [word_hi, word_there, word_you, word_blank]) = Some 4"
    by (simp add: word_blank_def)
  from trailing_partial_line [OF h1 h2 h3] h1 h3 show ?thesis
    by simp
qed

text \<open>
  The two variants of the grouping function are the same function.
\<close>

lemma group_step_ui_eq:
  assumes "group_inv st"
  shows "group_step_ui max_chars st w = group_step max_chars st w"
proof (cases "strip (get_text w) = []")
  case True
  then show ?thesis by (simp add: group_step_ui_def group_step_def)
next
  case False
  have wt: "trimmed (strip (get_text w))"
    by (rule trimmed_strip)
  have id1: "strip (strip (get_text w)) = strip (get_text w)"
    using wt by (rule trimmed_strip_id)
  have id2: "strip (current_sentence st @ CHR '' '' # strip (get_text w)) =
      current_sentence st @ CHR '' '' # strip (get_text w)" if "current_sentence st \<noteq> []"
    using assms False wt that by (intro trimmed_strip_id trimmed_join) (simp_all add: group_inv_def)
  show ?thesis
    by (auto simp: group_step_ui_def group_step_def Let_def id1 id2
        split: option.splits sum.splits)
qed

lemma group_loop_ui_eq:
  "group_inv st \<Longrightarrow> group_loop_ui max_chars st ws = group_loop max_chars st ws"
proof (induction ws arbitrary: st)
  case Nil
  then show ?case by simp
next
  case (Cons w ws)
  show ?case
  proof (cases "group_step max_chars st w")
    case (Inl e)
    with Cons.prems show ?thesis by (simp add: group_step_ui_eq)
  next
    case (Inr st')
    with Cons.prems have "group_inv st'" by (auto dest: group_step_inv)
    with Inr Cons show ?thesis by (simp add: group_step_ui_eq)
  qed
qed

lemma group_words_into_sentences_ui_eq:
  "group_words_into_sentences_ui ws max_chars = group_words_into_sentences ws max_chars"
proof (cases "group_loop max_chars group_init ws")
  case (Inl e)
  then show ?thesis
    by (simp add: group_words_into_sentences_ui_def group_words_into_sentences_def
        group_loop_ui_eq group_init_inv)
next
  case (Inr st)
  then have "group_inv st"
    using group_init_inv by (auto dest: group_loop_inv)
  then have "strip (current_sentence st) = current_sentence st"
    by (simp add: group_inv_def trimmed_strip_id)
  with Inr show ?thesis
    by (simp add: group_words_into_sentences_ui_def group_words_into_sentences_def
        group_loop_ui_eq group_init_inv split: option.splits)
qed

section \<open>Properties of the text reinjector\<close>

lemma scan_hit: "i < length ws \<Longrightarrow> clean (ws ! i) = clean w \<Longrightarrow> scan ws w i = (i + 1, Some (ws ! i))"
  by (subst scan.simps) (simp add: Let_def)

lemma scan_miss: "i < length ws \<Longrightarrow> clean (ws ! i) \<noteq> clean w \<Longrightarrow> scan ws w i = scan ws w (i + 1)"
  by (subst scan.simps) (simp add: Let_def)

lemma scan_at_end: "length ws \<le> i \<Longrightarrow> scan ws w i = (i, None)"
  by (subst scan.simps) simp

lemma scan_Some:
  "scan ws w i = (k, Some c) \<Longrightarrow>
     i < k \<and> k \<le> length ws \<and> c = ws ! (k - 1) \<and> clean c = clean w \<and>
     (\<forall>j. i \<le> j \<and> j < k - 1 \<longrightarrow> clean (ws ! j) \<noteq> clean w)"
proof (induction ws w i rule: scan.induct)
  case (1 ws w i)
  consider (miss) "i < length ws" "clean (ws ! i) \<noteq> clean w"
    | (hit) "i < length ws" "clean (ws ! i) = clean w"
    | (past) "length ws \<le> i"
    by linarith
  then show ?case
  proof cases
    case miss
    then have sc: "scan ws w (i + 1) = (k, Some c)"
      using "1.prems" by (simp add: scan_miss)
    have IH: "i + 1 < k \<and> k \<le> length ws \<and> c = ws ! (k - 1) \<and> clean c = clean w \<and>
       (\<forall>j. i + 1 \<le> j \<and> j < k - 1 \<longrightarrow> clean (ws ! j) \<noteq> clean w)"
      by (rule "1.IH" [OF miss(1) refl refl miss(2) sc])
    have "clean (ws ! j) \<noteq> clean w" if "i \<le> j \<and> j < k - 1" for j
      using that IH miss by (cases "j = i") auto
    with IH show ?thesis by auto
  next
    case hit
    then show ?thesis using "1.prems" by (auto simp: scan_hit)
  next
    case past
    then show ?thesis using "1.prems" by (simp add: scan_at_end)
  qed
qed

lemma scan_None:
  "scan ws w i = (k, None) \<Longrightarrow>
     k = max i (length ws) \<and> (\<forall>j. i \<le> j \<and> j < length ws \<longrightarrow> clean (ws ! j) \<noteq> clean w)"
proof (induction ws w i rule: scan.induct)
  case (1 ws w i)
  consider (miss) "i < length ws" "clean (ws ! i) \<noteq> clean w"
    | (hit) "i < length ws" "clean (ws ! i) = clean w"
    | (past) "length ws \<le> i"
    by linarith
  then show ?case
  proof cases
    case miss
    then have sc: "scan ws w (i + 1) = (k, None)"
      using "1.prems" by (simp add: scan_miss)
    have IH: "k = max (i + 1) (length ws) \<and>
       (\<forall>j. i + 1 \<le> j \<and> j < length ws \<longrightarrow> clean (ws ! j) \<noteq> clean w)"
      by (rule "1.IH" [OF miss(1) refl refl miss(2) sc])
    have "clean (ws ! j) \<noteq> clean w" if "i \<le> j \<and> j < length ws" for j
      using that IH miss by (cases "j = i") auto
    with IH miss show ?thesis by auto
  next
    case hit
    then show ?thesis using "1.prems" by (simp add: scan_hit)
  next
    case past
    then show ?thesis using "1.prems" by (auto simp: scan_at_end)
  qed
qed

lemma scan_cursor_mono: "scan ws w i = (k, m) \<Longrightarrow> i \<le> k"
  by (cases m) (auto dest: scan_Some scan_None)

lemma reinject_loop_acc:
  "reinject_loop ws (i, acc) ivs =
     (fst (reinject_loop ws (i, []) ivs), acc @ snd (reinject_loop ws (i, []) ivs))"
proof (induction ivs arbitrary: i acc)
  case Nil
  then show ?case by simp
next
  case (Cons w ivs)
  obtain k out where st: "reinject_step ws (i, []) w = (k, out)"
    by (cases "reinject_step ws (i, []) w")
  then have st': "reinject_step ws (i, acc) w = (k, acc @ out)"
    by (auto simp: reinject_step_def Let_def split: prod.splits option.splits if_splits)
  show ?case
    using Cons.IH [of k "acc @ out"] Cons.IH [of k out] by (simp add: st st')
qed

lemma reinject_step_blank: "\<not> nonblank w \<Longrightarrow> reinject_step ws st w = st"
  by (simp add: reinject_step_def nonblank_def)

lemma matched_indices_blank:
  "\<not> nonblank w \<Longrightarrow> matched_indices ws i (w # ivs) = matched_indices ws i ivs"
  by (simp add: nonblank_def)

lemma matched_indices_nonblank:
  "nonblank w \<Longrightarrow> scan ws (get_text w) i = (k, m) \<Longrightarrow>
     matched_indices ws i (w # ivs) =
       (case m of Some c \<Rightarrow> Some (k - 1) | None \<Rightarrow> None) # matched_indices ws k ivs"
  by (simp add: nonblank_def split: option.splits)

lemma reinject_loop_Cons_nonblank:
  assumes "nonblank w" "scan ws (get_text w) i = (k, m)"
  shows "reinject_loop ws (i, []) (w # ivs) =
     (fst (reinject_loop ws (k, []) ivs),
      (case m of Some c \<Rightarrow> w\<lparr>text := Some c\<rparr> | None \<Rightarrow> w) # snd (reinject_loop ws (k, []) ivs))"
proof -
  have "reinject_step ws (i, []) w = (k, [case m of Some c \<Rightarrow> w\<lparr>text := Some c\<rparr> | None \<Rightarrow> w])"
    using assms by (simp add: reinject_step_def nonblank_def split: option.splits)
  then show ?thesis
    using reinject_loop_acc [of ws k "[case m of Some c \<Rightarrow> w\<lparr>text := Some c\<rparr> | None \<Rightarrow> w]" ivs]
    by simp
qed

lemma matched_indices_lower:
  "Some a \<in> set (matched_indices ws i ivs) \<Longrightarrow> i \<le> a"
proof (induction ivs arbitrary: i)
  case Nil
  then show ?case by simp
next
  case (Cons w ivs)
  show ?case
  proof (cases "nonblank w")
    case False
    with Cons show ?thesis by (simp add: nonblank_def)
  next
    case True
    obtain k m where sc: "scan ws (get_text w) i = (k, m)"
      by (cases "scan ws (get_text w) i")
    have ik: "i \<le> k" using sc by (rule scan_cursor_mono)
    show ?thesis
    proof (cases m)
      case None
      with Cons.prems True sc have "Some a \<in> set (matched_indices ws k ivs)"
        by (simp add: nonblank_def)
      then have "k \<le> a" by (rule Cons.IH)
      with ik show ?thesis by simp
    next
      case (Some c)
      with Cons.prems True sc have "a = k - 1 \<or> Some a \<in> set (matched_indices ws k ivs)"
        by (auto simp: nonblank_def)
      moreover have "i < k" using sc Some scan_Some by blast
      ultimately show ?thesis using Cons.IH [of k] by auto
    qed
  qed
qed

lemma matched_indices_sorted:
  "sorted_wrt (\<lambda>x y. \<forall>a b. x = Some a \<and> y = Some b \<longrightarrow> a < b) (matched_indices ws i ivs)"
proof (induction ivs arbitrary: i)
  case Nil
  then show ?case by simp
next
  case (Cons w ivs)
  show ?case
  proof (cases "nonblank w")
    case False
    with Cons show ?thesis by (simp add: nonblank_def)
  next
    case True
    obtain k m where sc: "scan ws (get_text w) i = (k, m)"
      by (cases "scan ws (get_text w) i")
    show ?thesis
    proof (cases m)
      case None
      with True sc Cons.IH [of k] show ?thesis by (simp add: nonblank_def)
    next
      case (Some c)
      have "0 < k" using sc Some scan_Some by fastforce
      then have "\<forall>x\<in>set (matched_indices ws k ivs). \<forall>b. x = Some b \<longrightarrow> k - 1 < b"
        using matched_indices_lower [of _ ws k ivs] by fastforce
      with True sc Some Cons.IH [of k] show ?thesis by (simp add: nonblank_def)
    qed
  qed
qed

lemma findall_nonspace_tokens:
  "t \<in> set (findall_nonspace s) \<Longrightarrow> t \<noteq> [] \<and> (\<forall>c\<in>set t. \<not> isspace c)"
proof (induction s rule: findall_nonspace.induct)
  case (1 s)
  define s' where "s' = dropWhile isspace s"
  show ?case
  proof (cases "s' = []")
    case True
    then have "findall_nonspace s = []"
      by (subst findall_nonspace.simps) (simp add: s'_def)
    with "1.prems" show ?thesis by simp
  next
    case False
    then have hd: "\<not> isspace (hd s')" unfolding s'_def by (rule hd_dropWhile)
    from False have "findall_nonspace s = takeWhile (\<lambda>c. \<not> isspace c) s' #
        findall_nonspace (dropWhile (\<lambda>c. \<not> isspace c) s')"
      by (subst findall_nonspace.simps) (simp add: s'_def Let_def)
    with "1.prems" have "t = takeWhile (\<lambda>c. \<not> isspace c) s' \<or>
        t \<in> set (findall_nonspace (dropWhile (\<lambda>c. \<not> isspace c) s'))"
      by simp
    then show ?thesis
    proof
      assume t: "t = takeWhile (\<lambda>c. \<not> isspace c) s'"
      have "t \<noteq> []" using False hd by (cases s') (auto simp: t)
      moreover have "\<forall>c\<in>set t. \<not> isspace c" by (auto simp: t dest: set_takeWhileD)
      ultimately show ?thesis by simp
    next
      assume "t \<in> set (findall_nonspace (dropWhile (\<lambda>c. \<not> isspace c) s'))"
      then show ?thesis by (rule "1.IH" [OF s'_def False])
    qed
  qed
qed

lemma findall_nonspace_strip:
  assumes "t \<in> set (findall_nonspace s)"
  shows "strip t = t" and "strip t \<noteq> []"
proof -
  from findall_nonspace_tokens [OF assms] have t: "t \<noteq> []" "\<forall>c\<in>set t. \<not> isspace c"
    by simp_all
  then have "\<not> isspace (hd t)" "\<not> isspace (last t)" by simp_all
  with t(1) show "strip t = t" by (simp add: strip_eq_self)
  with t(1) show "strip t \<noteq> []" by simp
qed

lemma nonblank_text: "nonblank w \<Longrightarrow> text w = Some (get_text w)"
  by (cases "text w") (auto simp: nonblank_def get_text_def strip_def)

lemma reinject_loop_kept:
  assumes "\<forall>t\<in>set ws. strip t \<noteq> []"
  shows "list_all2 (\<lambda>u w. \<exists>t. u = w\<lparr>text := Some t\<rparr> \<and> strip t \<noteq> [])
     (snd (reinject_loop ws (i, []) ivs)) (filter nonblank ivs)"
proof (induction ivs arbitrary: i)
  case Nil
  then show ?case by simp
next
  case (Cons w ivs)
  show ?case
  proof (cases "nonblank w")
    case False
    with Cons show ?thesis by (simp add: reinject_step_blank)
  next
    case True
    obtain k m where sc: "scan ws (get_text w) i = (k, m)"
      by (cases "scan ws (get_text w) i")
    have "\<exists>t. (case m of Some c \<Rightarrow> w\<lparr>text := Some c\<rparr> | None \<Rightarrow> w) = w\<lparr>text := Some t\<rparr> \<and> strip t \<noteq> []"
    proof (cases m)
      case None
      have "w = w\<lparr>text := Some (get_text w)\<rparr>"
        using nonblank_text [OF True] by simp
      with None True show ?thesis by (auto simp: nonblank_def)
    next
      case (Some c)
      with sc have "0 < k" "k \<le> length ws" "c = ws ! (k - 1)"
        using scan_Some [of ws "get_text w" i k c] by auto
      then have "c \<in> set ws" by simp
      with assms Some show ?thesis by auto
    qed
    with True show ?thesis
      using Cons.IH [of k]
      by (simp add: reinject_loop_Cons_nonblank [OF True sc] del: reinject_loop.simps)
  qed
qed

text \<open>
  C5.  The output of the reinjector corresponds, position by position and in input
  order, to the input intervals whose text is not empty or whitespace-only: each output
  interval is such an input interval with at most its text replaced, and its text is
  again not blank.  An interval with blank (or missing) text leaves the whole loop state
  unchanged: nothing is appended and the transcript cursor does not move.
\<close>

theorem reinject_keeps_nonblank:
  "list_all2 (\<lambda>u w. \<exists>t. u = w\<lparr>text := Some t\<rparr> \<and> strip t \<noteq> [])
     (reinject_case_and_characters ivs script) (filter nonblank ivs) \<and>
   (\<not> nonblank w \<longrightarrow> reinject_step ws st w = st)"
proof -
  have "\<forall>t\<in>set (findall_nonspace script). strip t \<noteq> []"
    using findall_nonspace_strip(2) by blast
  then show ?thesis
    by (simp add: reinject_case_and_characters_def reinject_loop_kept reinject_step_blank)
qed

lemma matched_indices_output:
  "length (matched_indices ws i ivs) = length (filter nonblank ivs) \<and>
   snd (reinject_loop ws (i, []) ivs) =
     map2 (\<lambda>m w. case m of Some k \<Rightarrow> w\<lparr>text := Some (ws ! k)\<rparr> | None \<Rightarrow> w)
       (matched_indices ws i ivs) (filter nonblank ivs) \<and>
   list_all2 (\<lambda>m w. \<forall>k. m = Some k \<longrightarrow> k < length ws \<and> clean (ws ! k) = clean (get_text w))
       (matched_indices ws i ivs) (filter nonblank ivs)"
proof (induction ivs arbitrary: i)
  case Nil
  then show ?case by simp
next
  case (Cons w ivs)
  show ?case
  proof (cases "nonblank w")
    case False
    with Cons show ?thesis
      by (simp add: reinject_step_blank matched_indices_blank del: matched_indices.simps)
  next
    case True
    obtain k m where sc: "scan ws (get_text w) i = (k, m)"
      by (cases "scan ws (get_text w) i")
    show ?thesis
    proof (cases m)
      case None
      with True Cons.IH [of k] show ?thesis
        by (simp add: reinject_loop_Cons_nonblank [OF True sc] matched_indices_nonblank [OF True sc]
            del: reinject_loop.simps matched_indices.simps)
    next
      case (Some c)
      with sc have "0 < k" "k \<le> length ws" "c = ws ! (k - 1)" "clean c = clean (get_text w)"
        using scan_Some [of ws "get_text w" i k c] by auto
      with Some True Cons.IH [of k] show ?thesis
        by (simp add: reinject_loop_Cons_nonblank [OF True sc] matched_indices_nonblank [OF True sc]
            del: reinject_loop.simps matched_indices.simps)
    qed
  qed
qed

text \<open>
  C8.  For any two kept intervals that both adopted a transcript token, the later one's
  token index is strictly greater than the earlier one's; the indices are those of the
  tokens found in the output.
\<close>

theorem cursor_monotonic:
  fixes ivs :: "'t interval list" and script :: string
  defines "ws \<equiv> findall_nonspace script"
  defines "ms \<equiv> matched_indices (findall_nonspace script) 0 ivs"
  defines "out \<equiv> reinject_case_and_characters ivs script"
  assumes "i < j" "j < length ms" "ms ! i = Some a" "ms ! j = Some b"
  shows "a < b \<and> b < length ws \<and> length out = length ms \<and>
         text (out ! i) = Some (ws ! a) \<and> text (out ! j) = Some (ws ! b)"
proof -
  let ?f = "filter nonblank ivs"
  have len: "length ms = length ?f"
    and out: "out = map2 (\<lambda>m w. case m of Some k \<Rightarrow> w\<lparr>text := Some (ws ! k)\<rparr> | None \<Rightarrow> w) ms ?f"
    and rel: "list_all2 (\<lambda>m w. \<forall>k. m = Some k \<longrightarrow> k < length ws \<and> clean (ws ! k) = clean (get_text w)) ms ?f"
    using matched_indices_output [of ws 0 ivs]
    by (simp_all add: ms_def out_def ws_def reinject_case_and_characters_def)
  have "sorted_wrt (\<lambda>x y. \<forall>a b. x = Some a \<and> y = Some b \<longrightarrow> a < b) ms"
    unfolding ms_def by (rule matched_indices_sorted)
  then have "\<forall>a b. ms ! i = Some a \<and> ms ! j = Some b \<longrightarrow> a < b"
    using assms(4,5) by (rule sorted_wrt_nth_less)
  then have ab: "a < b"
    using assms(6,7) by blast
  have "j < length ms" by (rule assms(5))
  with rel have "\<forall>k. ms ! j = Some k \<longrightarrow> k < length ws \<and> clean (ws ! k) = clean (get_text (?f ! j))"
    by (rule list_all2_nthD)
  then have bl: "b < length ws"
    using assms(7) by blast
  have lo: "length out = length ms" by (simp add: out len)
  have ij: "i < length ms" "j < length ms" "i < length ?f" "j < length ?f"
    using assms(4,5) len by simp_all
  have "out ! i = (case ms ! i of Some k \<Rightarrow> (?f ! i)\<lparr>text := Some (ws ! k)\<rparr> | None \<Rightarrow> ?f ! i)"
    unfolding out using ij by simp
  then have ti: "text (out ! i) = Some (ws ! a)"
    by (simp add: assms(6))
  have "out ! j = (case ms ! j of Some k \<Rightarrow> (?f ! j)\<lparr>text := Some (ws ! k)\<rparr> | None \<Rightarrow> ?f ! j)"
    unfolding out using ij by simp
  then have tj: "text (out ! j) = Some (ws ! b)"
    by (simp add: assms(7))
  from ab bl lo ti tj show ?thesis by simp
qed

theorem cursor_monotonic_witness:
  "matched_indices (findall_nonspace transcript) 0 aligned_words = [Some 0, Some 2, Some 3] \<and>
   findall_nonspace transcript = [''Hello'', ''big'', ''world,'', ''Don't''] \<and>
   (2::nat) < 3 \<and>
   length (reinject_case_and_characters aligned_words transcript) = 3 \<and>
   text (reinject_case_and_characters aligned_words transcript ! 1) = Some ''world,'' \<and>
   text (reinject_case_and_characters aligned_words transcript ! 2) = Some ''Don't''"
proof -
  have ms: "matched_indices (findall_nonspace transcript) 0 aligned_words = [Some 0, Some 2, Some 3]"
    by code_simp
  have ws: "findall_nonspace transcript = [''Hello'', ''big'', ''world,'', ''Don't'']"
    by code_simp
  have h1: "(1::nat) < 2" by simp
  have h2: "2 < length (matched_indices (findall_nonspace transcript) 0 aligned_words)"
    by (simp add: ms)
  have h3: "matched_indices (findall_nonspace transcript) 0 aligned_words ! 1 = Some 2"
    by (simp add: ms)
  have h4: "matched_indices (findall_nonspace transcript) 0 aligned_words ! 2 = Some 3"
    by (simp add: ms)
  note ms' = ms [unfolded ws]
  from cursor_monotonic [OF h1 h2 h3 h4] show ?thesis
    by (simp add: ws ms')
qed

theorem reinject_keeps_nonblank_witness:
  "\<not> nonblank (aligned_words ! 1) \<and>
   reinject_step (findall_nonspace transcript) (1, [aligned_words ! 0]) (aligned_words ! 1) =
     (1, [aligned_words ! 0]) \<and>
   list_all2 (\<lambda>u w. \<exists>t. u = w\<lparr>text := Some t\<rparr> \<and> strip t \<noteq> [])
     (reinject_case_and_characters aligned_words transcript) (filter nonblank aligned_words) \<and>
   map get_text (reinject_case_and_characters aligned_words transcript) =
     [''Hello'', ''world,'', ''Don't'']"
proof -
  have b: "\<not> nonblank (aligned_words ! 1)" by code_simp
  have e: "map get_text (reinject_case_and_characters aligned_words transcript) =
     [''Hello'', ''world,'', ''Don't'']" by code_simp
  from reinject_keeps_nonblank [of aligned_words transcript "aligned_words ! 1"
      "findall_nonspace transcript" "(1, [aligned_words ! 0])"] b e
  show ?thesis by blast
qed

text \<open>
  C4 (the program deviates).  The program normalises with \<^verbatim>\<open>\W+\<close>, which keeps the
  underscore, although its comment announces a match that ignores case and punctuation.
  With the transcript \<^verbatim>\<open>_Hello_ world\<close> the interval \<^verbatim>\<open>hello\<close> is not matched with
  \<^verbatim>\<open>_Hello_\<close>, the scan runs to the end of the transcript, and \<^verbatim>\<open>world\<close> is not matched
  either; stripping all non-alphanumeric characters would make \<^verbatim>\<open>_Hello_\<close> and
  \<^verbatim>\<open>hello\<close> equal.
\<close>

theorem reinject_underscore_unmatched:
  "map get_text (reinject_case_and_characters
      [\<lparr>xmin = Some (0::real), xmax = Some 1, text = Some ''hello''\<rparr>,
       \<lparr>xmin = Some 1, xmax = Some 2, text = Some ''world''\<rparr>] ''_Hello_ world'') =
     [''hello'', ''world''] \<and>
   findall_nonspace ''_Hello_ world'' = [''_Hello_'', ''world''] \<and>
   spec_normalize ''_Hello_'' = spec_normalize ''hello'' \<and>
   clean ''_Hello_'' = ''_hello_'' \<and> clean ''hello'' = ''hello''"
  by code_simp

section \<open>Properties of the interval parser\<close>

lemma length_split_on: "length (split_on c s) = Suc (length (filter (\<lambda>x. x = c) s))"
  by (induction s) (auto split: list.splits)

lemma startswith_eq_mem:
  assumes "startswith line p" "c \<in> set p"
  shows "c \<in> set line"
proof -
  from assms(1) obtain r where "line = p @ r"
    by (auto simp: startswith_def prefix_def)
  with assms(2) show ?thesis by simp
qed

lemma item_split_on:
  assumes "c \<in> set line"
  shows "item (split_on c line) (Suc 0) = Inr (split_on c line ! Suc 0)"
proof -
  from assms have "filter (\<lambda>x. x = c) line \<noteq> []"
    by (auto simp: filter_empty_conv)
  then have "0 < length (filter (\<lambda>x. x = c) line)" by simp
  then show ?thesis by (simp add: item_def length_split_on)
qed

lemma item_split_once:
  assumes "c \<in> set line"
  shows "item (split_once c line) (Suc 0) = Inr (split_once c line ! Suc 0)"
  using assms by (simp add: item_def split_once_def)

lemma kinds_disjoint:
  "is_name_line l \<Longrightarrow> \<not> is_xmin_line l \<and> \<not> is_xmax_line l \<and> \<not> is_text_line l"
  "is_xmin_line l \<Longrightarrow> \<not> is_xmax_line l \<and> \<not> is_text_line l"
  "is_xmax_line l \<Longrightarrow> \<not> is_text_line l"
  by (auto simp: is_name_line_def is_xmin_line_def is_xmax_line_def is_text_line_def
      startswith_def prefix_def)

lemma parse_line_eq:
  "parse_line float st l =
     (if is_name_line l then Inr (st\<lparr>in_words_tier := names_words l\<rparr>)
      else if in_words_tier st \<and> is_xmin_line l then
        (case float (eq_field l) of
           None \<Rightarrow> Inl ValueError
         | Some v \<Rightarrow> Inr (st\<lparr>current_interval := (current_interval st)\<lparr>xmin := Some v\<rparr>\<rparr>))
      else if in_words_tier st \<and> is_xmax_line l then
        (case float (eq_field l) of
           None \<Rightarrow> Inl ValueError
         | Some v \<Rightarrow> Inr (st\<lparr>current_interval := (current_interval st)\<lparr>xmax := Some v\<rparr>\<rparr>))
      else if in_words_tier st \<and> is_text_line l then
        Inr (st\<lparr>intervals := intervals st @ [(current_interval st)\<lparr>text := Some (text_value l)\<rparr>],
                current_interval := empty_interval\<rparr>)
      else Inr st)"
proof -
  have eq: "CHR ''='' \<in> set (strip l)"
    if "startswith (strip l) ''name ='' \<or> startswith (strip l) ''xmin ='' \<or>
        startswith (strip l) ''xmax ='' \<or> startswith (strip l) ''text =''"
    using that by (auto intro: startswith_eq_mem)
  show ?thesis
    unfolding parse_line_def Let_def is_name_line_def is_xmin_line_def is_xmax_line_def
      is_text_line_def names_words_def eq_field_def text_value_def
    using eq by (auto simp: item_split_on item_split_once)
qed

lemma parse_lines_append:
  "parse_lines float st (xs @ ys) =
     (case parse_lines float st xs of Inl e \<Rightarrow> Inl e | Inr st' \<Rightarrow> parse_lines float st' ys)"
  by (induction xs arbitrary: st) (auto split: sum.splits)

lemma words_flag_snoc:
  "words_flag (pre @ [l]) = (if is_name_line l then names_words l else words_flag pre)"
  by (simp add: words_flag_def)

lemma emits_snoc:
  "i < length pre \<Longrightarrow> emits (pre @ [l]) i = emits pre i"
  "emits (pre @ [l]) (length pre) = (is_text_line l \<and> words_flag pre)"
  by (simp_all add: emits_def nth_append)

lemma emitted_snoc:
  "emitted (pre @ [l]) =
     emitted pre @ (if is_text_line l \<and> words_flag pre then [length pre] else [])"
proof -
  have "filter (emits (pre @ [l])) [0..<length pre] = filter (emits pre) [0..<length pre]"
    by (rule filter_cong) (simp_all add: emits_snoc)
  then show ?thesis
    by (simp add: emitted_def emits_snoc)
qed

lemma pending_snoc:
  "pending sel (pre @ [l]) =
     (if is_text_line l \<and> words_flag pre then []
      else pending sel pre @ (if sel l \<and> words_flag pre then [length pre] else []))"
proof (cases "is_text_line l \<and> words_flag pre")
  case True
  then have em: "emits (pre @ [l]) (length pre)" by (simp add: emits_snoc)
  have "\<not> (\<forall>e\<in>{j..<length (pre @ [l])}. \<not> emits (pre @ [l]) e)"
    if "j \<in> set [0..<length (pre @ [l])]" for j
  proof -
    from that have "length pre \<in> {j..<length (pre @ [l])}" by auto
    with em show ?thesis by blast
  qed
  then have "pending sel (pre @ [l]) = []"
    unfolding pending_def filter_empty_conv by blast
  with True show ?thesis by simp
next
  case False
  then have ne: "\<not> emits (pre @ [l]) (length pre)" by (simp add: emits_snoc)
  have ball: "(\<forall>e\<in>{j..<Suc (length pre)}. \<not> emits (pre @ [l]) e) = (\<forall>e\<in>{j..<length pre}. \<not> emits pre e)"
    if "j \<le> length pre" for j
  proof -
    have "{j..<Suc (length pre)} = insert (length pre) {j..<length pre}"
      using that by auto
    then show ?thesis using ne by (auto simp: emits_snoc)
  qed
  let ?Q = "\<lambda>j. sel ((pre @ [l]) ! j) \<and> words_flag (take j (pre @ [l])) \<and>
       (\<forall>e\<in>{j..<length (pre @ [l])}. \<not> emits (pre @ [l]) e)"
  let ?P = "\<lambda>j. sel (pre ! j) \<and> words_flag (take j pre) \<and> (\<forall>e\<in>{j..<length pre}. \<not> emits pre e)"
  have "[0..<length (pre @ [l])] = [0..<length pre] @ [length pre]" by simp
  then have "pending sel (pre @ [l]) = filter ?Q [0..<length pre] @ filter ?Q [length pre]"
    unfolding pending_def by (simp only: filter_append)
  moreover have "filter ?Q [0..<length pre] = filter ?P [0..<length pre]"
    by (rule filter_cong) (simp_all add: ball nth_append)
  moreover have "filter ?Q [length pre] = (if sel l \<and> words_flag pre then [length pre] else [])"
    using ball [of "length pre"] by simp
  ultimately have "pending sel (pre @ [l]) =
      pending sel pre @ (if sel l \<and> words_flag pre then [length pre] else [])"
    by (simp only: pending_def)
  with False show ?thesis by auto
qed

lemma last_bound_snoc:
  "last_bound sel float (pre @ [l]) =
     (if is_text_line l \<and> words_flag pre then None
      else if sel l \<and> words_flag pre then float (eq_field l)
      else last_bound sel float pre)"
proof -
  have "last_bound sel float (pre @ [l]) = last_bound sel float pre"
    if "\<not> (is_text_line l \<and> words_flag pre)" "\<not> (sel l \<and> words_flag pre)"
  proof -
    have p: "pending sel (pre @ [l]) = pending sel pre"
      using that by (auto simp: pending_snoc)
    have "j < length pre" if "j \<in> set (pending sel pre)" for j
      using that by (simp add: pending_def)
    then have "float (eq_field ((pre @ [l]) ! j)) = float (eq_field (pre ! j))"
      if "rev (pending sel pre) = j # js" for j js
      using that by (metis list.set_intros(1) nth_append set_rev)
    then show ?thesis
      by (simp add: last_bound_def p split: list.splits)
  qed
  then show ?thesis
    by (auto simp: last_bound_def pending_snoc)
qed

lemma interval_at_snoc:
  "i < length pre \<Longrightarrow> interval_at float (pre @ [l]) i = interval_at float pre i"
  by (simp add: interval_at_def nth_append)

lemma intervals_snoc:
  "map (interval_at float (pre @ [l])) (emitted pre) = map (interval_at float pre) (emitted pre)"
  by (rule map_cong) (simp_all add: emitted_def interval_at_snoc)

lemma bad_number_snoc:
  "(\<exists>i<length (pre @ [l]). bad_number float (pre @ [l]) i) =
     ((\<exists>i<length pre. bad_number float pre i) \<or>
      ((is_xmin_line l \<or> is_xmax_line l) \<and> words_flag pre \<and> float (eq_field l) = None))"
proof -
  have a: "bad_number float (pre @ [l]) i = bad_number float pre i" if "i < length pre" for i
    using that by (simp add: bad_number_def nth_append)
  have b: "bad_number float (pre @ [l]) (length pre) =
      ((is_xmin_line l \<or> is_xmax_line l) \<and> words_flag pre \<and> float (eq_field l) = None)"
    by (simp add: bad_number_def)
  show ?thesis
    using a b by (auto simp: less_Suc_eq)
qed

lemma state_of_Nil: "state_of float [] = parse_init"
  by (simp add: state_of_def parse_init_def empty_interval_def emitted_def last_bound_def
      pending_def words_flag_def)

lemma interval_at_last:
  "interval_at float (pre @ [l]) (length pre) =
     \<lparr>xmin = last_bound is_xmin_line float pre, xmax = last_bound is_xmax_line float pre,
      text = Some (text_value l)\<rparr>"
  by (simp add: interval_at_def)

lemma state_of_snoc:
  "state_of float (pre @ [l]) =
     \<lparr>intervals = map (interval_at float pre) (emitted pre) @
        (if is_text_line l \<and> words_flag pre
         then [\<lparr>xmin = last_bound is_xmin_line float pre, xmax = last_bound is_xmax_line float pre,
                text = Some (text_value l)\<rparr>]
         else []),
      current_interval =
        \<lparr>xmin = last_bound is_xmin_line float (pre @ [l]),
         xmax = last_bound is_xmax_line float (pre @ [l]), text = None\<rparr>,
      in_words_tier = (if is_name_line l then names_words l else words_flag pre)\<rparr>"
  by (simp add: state_of_def emitted_snoc intervals_snoc interval_at_last words_flag_snoc)

lemma parse_line_state_of:
  "parse_line float (state_of float pre) l =
     (if (is_xmin_line l \<or> is_xmax_line l) \<and> words_flag pre \<and> float (eq_field l) = None
      then Inl ValueError else Inr (state_of float (pre @ [l])))"
proof -
  consider (nm) "is_name_line l"
    | (lo) "\<not> is_name_line l" "is_xmin_line l"
    | (hi) "\<not> is_name_line l" "\<not> is_xmin_line l" "is_xmax_line l"
    | (tx) "\<not> is_name_line l" "\<not> is_xmin_line l" "\<not> is_xmax_line l" "is_text_line l"
    | (other) "\<not> is_name_line l" "\<not> is_xmin_line l" "\<not> is_xmax_line l" "\<not> is_text_line l"
    by blast
  then show ?thesis
  proof cases
    case nm
    with kinds_disjoint(1) [OF nm] show ?thesis
      by (simp add: parse_line_eq state_of_snoc last_bound_snoc) (simp add: state_of_def)
  next
    case lo
    with kinds_disjoint(2) [OF lo(2)] show ?thesis
      by (simp add: parse_line_eq state_of_snoc last_bound_snoc)
        (auto simp: state_of_def split: option.splits)
  next
    case hi
    with kinds_disjoint(3) [OF hi(3)] show ?thesis
      by (simp add: parse_line_eq state_of_snoc last_bound_snoc)
        (auto simp: state_of_def split: option.splits)
  next
    case tx
    then show ?thesis
      by (simp add: parse_line_eq state_of_snoc last_bound_snoc)
        (auto simp: state_of_def empty_interval_def)
  next
    case other
    then show ?thesis
      by (simp add: parse_line_eq state_of_snoc last_bound_snoc) (simp add: state_of_def)
  qed
qed

lemma parse_lines_state:
  "parse_lines float parse_init pre =
     (if \<exists>i<length pre. bad_number float pre i then Inl ValueError
      else Inr (state_of float pre))"
proof (induction pre rule: rev_induct)
  case Nil
  then show ?case by (simp add: state_of_Nil)
next
  case (snoc l pre)
  show ?case
  proof (cases "\<exists>i<length pre. bad_number float pre i")
    case True
    then have "parse_lines float parse_init (pre @ [l]) = Inl ValueError"
      using snoc.IH by (simp add: parse_lines_append)
    moreover have "\<exists>i<length (pre @ [l]). bad_number float (pre @ [l]) i"
      using True by (simp only: bad_number_snoc) simp
    ultimately show ?thesis by simp
  next
    case False
    with snoc.IH have "parse_lines float parse_init pre = Inr (state_of float pre)"
      by simp
    then have "parse_lines float parse_init (pre @ [l]) = parse_line float (state_of float pre) l"
      by (simp add: parse_lines_append split: sum.splits)
    then show ?thesis
      using False by (simp only: parse_line_state_of bad_number_snoc) simp
  qed
qed


text \<open>
  What the parser returns: when no bound line met under the words flag is malformed, the
  result is one interval for every text line met under the flag, in document order, with
  the text of that line and the most recent bounds.
\<close>

lemma parse_textgrid_words_tier:
  assumes "fs file_path = Some doc" and "\<not> (\<exists>i<length doc. bad_number float doc i)"
  shows "parse_textgrid float fs file_path = Inr (map (interval_at float doc) (emitted doc))"
  using assms
  by (simp add: parse_textgrid_def parse_lines_state state_of_def)

text \<open>
  C6 (the program deviates).  The name of a tier is read with \<^verbatim>\<open>line.split("=")[1]\<close>, which
  stops at a second \<^verbatim>\<open>=\<close>, while the text of an interval is read with
  \<^verbatim>\<open>line.split("=", 1)[1]\<close>.  A tier named \<^verbatim>\<open>words=draft\<close> is therefore taken for the words
  tier, and its intervals are returned although the tier is not named \<^verbatim>\<open>words\<close>.
\<close>

theorem parse_textgrid_equals_in_name:
  "sample_fs ''equals_in_name.TextGrid'' = Some textgrid_equals_in_name \<and>
   text_value (textgrid_equals_in_name ! 0) = ''words=draft'' \<and>
   lower (text_value (textgrid_equals_in_name ! 0)) \<noteq> ''words'' \<and>
   names_words (textgrid_equals_in_name ! 0) \<and>
   parse_textgrid float_decimal sample_fs ''equals_in_name.TextGrid'' =
     Inr [\<lparr>xmin = Some 0, xmax = Some 1, text = Some ''hi''\<rparr>]"
  by code_simp










end
